theory Spec2Isabelle
  imports Main "HOL-Library.Word" "HOL-Library.Code_Target_Nat"
begin

section \<open>The RDMA scatter server: data model\<close>

text \<open>
  The development embeds \<^verbatim>\<open>examples/11_rdma_scatter/sw/src/server/main.cpp\<close>.
  The file holds two listings. The second one (lines 156 to 407) is the scatter server:
  its \<^verbatim>\<open>run_bench\<close> copies the received payload to four GPU buffers before it
  writes back. The first one (lines 1 to 156) is the plain RDMA server it was derived
  from; its sweep is embedded further down under the names \<open>run_bench_v1\<close> and
  \<open>main_v1\<close>.

  Everything outside the file (the Coyote thread, the HIP runtime, the peer) is an
  environment: each external call asks the environment for its return value, given the
  history of calls so far, and is appended to a trace. Console output, the parsing of the
  command line and the construction of the Coyote thread are not modelled.

  \<^verbatim>\<open>unsigned int\<close> and \<^verbatim>\<open>uint\<close> are 32-bit words. The type \<^verbatim>\<open>coyote::rdmaSg\<close> is declared
  outside the file; only its field \<^verbatim>\<open>len\<close> is used, which \<^verbatim>\<open>main\<close> sets from an
  \<^verbatim>\<open>unsigned int\<close>, and it is taken to be a 32-bit word as well. An \<^verbatim>\<open>int\<close> loop counter
  is a natural number \<open>i\<close> together with a check against \<^verbatim>\<open>INT_MAX\<close> where the source
  could overflow it.
\<close>

type_synonym u32 = "32 word"

text \<open>\<^verbatim>\<open>hipError_t\<close>: \<open>0\<close> is \<^verbatim>\<open>hipSuccess\<close>, any other value an error.\<close>

type_synonym hipError_t = nat

abbreviation (input) hipSuccess :: hipError_t where
  "hipSuccess \<equiv> 0"

text \<open>
  Calls into the HIP runtime, with the arguments the source passes.
  \<open>hipMemcpyAsync d e n\<close> stands for
  \<^verbatim>\<open>hipMemcpyAsync(dest_buffers[d], &mem[e], n, hipMemcpyHostToDevice)\<close>: \<open>d\<close> indexes
  \<^verbatim>\<open>dest_buffers\<close>, \<open>e\<close> is the element index into \<^verbatim>\<open>int *mem\<close>, \<open>n\<close> the byte count.
  \<open>hipDeviceSynchronize d\<close> records the device that was current at the call.
\<close>

datatype hip_call =
    hipSetDevice nat
  | hipStreamCreate nat
  | hipEventCreate nat
  | hipMemcpyAsync nat nat nat
  | hipDeviceSynchronize nat
  | hipStreamDestroy nat
  | hipEventDestroy nat
  | hipFree nat

datatype event =
    Hip hip_call hipError_t
  | ClearCompleted
  | ConnSync bool
  | CheckCompleted u32
  | Invoke_REMOTE_RDMA_WRITE u32
  | InitRDMA u32 bool
  | GetMem u32 nat bool
  | SetCSR nat
  | Enter_run_bench u32 u32 u32 bool

text \<open>
  \<open>Invoke_REMOTE_RDMA_WRITE len\<close> is
  \<^verbatim>\<open>coyote_thread.invoke(coyote::CoyoteOper::REMOTE_RDMA_WRITE, sg)\<close> with \<^verbatim>\<open>sg.len = len\<close>;
  \<open>CheckCompleted v\<close> is a poll of \<^verbatim>\<open>checkCompleted(LOCAL_WRITE)\<close> that returned \<open>v\<close>;
  \<open>InitRDMA size ok\<close> and \<open>GetMem size gpu ok\<close> are the allocations (\<open>ok\<close> is false for a
  null pointer); \<open>SetCSR reg\<close> is a write to the vFPGA register \<open>reg\<close> (first listing only);
  \<open>Enter_run_bench len transfers n_runs operation\<close> marks an invocation of
  \<^verbatim>\<open>run_bench\<close> with its arguments.
\<close>

record env =
  hip_returns :: "event list \<Rightarrow> hip_call \<Rightarrow> hipError_t"
  checkCompleted_returns :: "event list \<Rightarrow> u32"
  rdma_landed :: "event list \<Rightarrow> (nat \<Rightarrow> 32 word) \<Rightarrow> (nat \<Rightarrow> 32 word)"
  initRDMA_ok :: bool
  getMem_ok :: "event list \<Rightarrow> nat \<Rightarrow> bool"

text \<open>
  The program state: the trace, the current HIP device, the host staging buffer
  \<^verbatim>\<open>int *mem\<close> and the four device buffers, both indexed by \<^verbatim>\<open>int\<close> element
  (\<^verbatim>\<open>sizeof(int)\<close> is 4 bytes). \<open>mem\<close> is the address space seen from the buffer's base:
  an index past the buffer's capacity is a read outside it.
\<close>

record state =
  trace :: "event list"
  cur_device :: nat
  mem :: "nat \<Rightarrow> 32 word"
  dest_buffers :: "nat \<Rightarrow> nat \<Rightarrow> 32 word"

datatype error =
    Couldnt_select_GPU
  | Couldnt_create_stream
  | Couldnt_create_event
  | Couldnt_synchronize_stream
  | Could_not_allocate_memory
  | Could_not_allocate_scatter_buffers
  | Signed_int_overflow

text \<open>
  The first six are the \<^verbatim>\<open>std::runtime_error\<close>s the source throws, named by their
  messages. \<open>Signed_int_overflow\<close> marks the undefined behaviour of an \<^verbatim>\<open>int\<close>
  counter that would pass \<^verbatim>\<open>INT_MAX\<close>.
\<close>

type_synonym 'a result = "(error \<times> state) + 'a"

definition sizeof_int :: nat where
  "sizeof_int = 4"

definition INT_MAX :: nat where
  "INT_MAX = 2147483647"

definition NUM_GPUS :: nat where
  "NUM_GPUS = 4"

definition IS_CLIENT :: bool where
  "IS_CLIENT = False"

definition EXIT_SUCCESS :: nat where
  "EXIT_SUCCESS = 0"

definition log :: "event \<Rightarrow> state \<Rightarrow> state" where
  "log e st = st\<lparr>trace := trace st @ [e]\<rparr>"

text \<open>
  What a HIP call does to the state when it succeeds: \<^verbatim>\<open>hipSetDevice\<close> changes the
  current device; \<^verbatim>\<open>hipMemcpyAsync\<close> of \<open>n\<close> bytes writes \<open>n div sizeof_int\<close> elements,
  read from \<open>mem\<close> at element \<open>e\<close>, to the start of device buffer \<open>d\<close> (the copy is
  applied at once; the source waits for it in \<^verbatim>\<open>hipDeviceSynchronize\<close>).
\<close>

fun hip_effect :: "hip_call \<Rightarrow> state \<Rightarrow> state" where
  "hip_effect (hipSetDevice d) st = st\<lparr>cur_device := d\<rparr>"
| "hip_effect (hipMemcpyAsync d e n) st =
     st\<lparr>dest_buffers := (dest_buffers st)
       (d := (\<lambda>k. if k < n div sizeof_int then mem st (e + k) else dest_buffers st d k))\<rparr>"
| "hip_effect _ st = st"

definition call_hip :: "env \<Rightarrow> hip_call \<Rightarrow> state \<Rightarrow> hipError_t \<times> state" where
  "call_hip env c st =
     (let r = hip_returns env (trace st) c;
          st' = log (Hip c r) st
      in (r, if r = hipSuccess then hip_effect c st' else st'))"

section \<open>\<^verbatim>\<open>run_bench\<close> of the scatter server (lines 211 to 318)\<close>

text \<open>
  Lines 217 to 219:
  \<^verbatim>\<open>for (int i = 0; i < sg.len / sizeof(int); i++) { mem[i] = operation ? 0 : i; }\<close>
\<close>

function fill_loop :: "u32 \<Rightarrow> bool \<Rightarrow> nat \<Rightarrow> state \<Rightarrow> state" where
  "fill_loop len operation i st =
     (if i < unat len div sizeof_int
      then fill_loop len operation (Suc i)
             (st\<lparr>mem := (mem st)(i := (if operation then 0 else of_nat i))\<rparr>)
      else st)"
  by pat_completeness auto
termination
  by (relation "measure (\<lambda>(len, operation, i, st). unat len div sizeof_int - i)") auto

declare fill_loop.simps [simp del]

text \<open>
  Lines 224 to 229: one stream and one event per GPU; each failure throws.
\<close>

function create_loop :: "env \<Rightarrow> nat \<Rightarrow> state \<Rightarrow> state result" where
  "create_loop env i st =
     (if i < NUM_GPUS then
        (case call_hip env (hipSetDevice i) st of (r1, st1) \<Rightarrow>
           if r1 \<noteq> hipSuccess then Inl (Couldnt_select_GPU, st1)
           else (case call_hip env (hipStreamCreate i) st1 of (r2, st2) \<Rightarrow>
             if r2 \<noteq> hipSuccess then Inl (Couldnt_create_stream, st2)
             else (case call_hip env (hipEventCreate i) st2 of (r3, st3) \<Rightarrow>
               if r3 \<noteq> hipSuccess then Inl (Couldnt_create_event, st3)
               else create_loop env (Suc i) st3)))
      else Inr st)"
  by pat_completeness auto
termination
  by (relation "measure (\<lambda>(env, i, st). NUM_GPUS - i)") auto

declare create_loop.simps [simp del]

text \<open>
  Line 239: \<^verbatim>\<open>while (coyote_thread.checkCompleted(LOCAL_WRITE) != transfers) {}\<close>.
  The loop has no bound: it returns \<open>None\<close> when the count never equals \<open>transfers\<close>.
  What the peer has written into the staging buffer is visible after each poll.
\<close>

partial_function (option) wait_completed :: "env \<Rightarrow> u32 \<Rightarrow> state \<Rightarrow> state option" where
  "wait_completed env transfers st =
     (let v = checkCompleted_returns env (trace st);
          st' = (log (CheckCompleted v) st)\<lparr>mem := rdma_landed env (trace st) (mem st)\<rparr>
      in if v \<noteq> transfers then wait_completed env transfers st' else Some st')"

declare wait_completed.simps [code]

text \<open>
  Lines 246 to 255, the fan-out:
  \<^verbatim>\<open>for(int i = 0; i < sg.len / 4096; i++) {
    if (hipSetDevice(i%4)) { throw std::runtime_error("Couldn't select GPU!"); }
    hipMemcpyAsync(dest_buffers[i % 4], &mem[i * 4096], 4096, hipMemcpyHostToDevice);
  }\<close>
  The value \<^verbatim>\<open>hipMemcpyAsync\<close> returns is dropped. \<^verbatim>\<open>i * 4096\<close> is an \<^verbatim>\<open>int\<close>
  product.
\<close>

function copy_loop :: "env \<Rightarrow> u32 \<Rightarrow> nat \<Rightarrow> state \<Rightarrow> state result" where
  "copy_loop env len i st =
     (if i < unat len div 4096 then
        (case call_hip env (hipSetDevice (i mod 4)) st of (r1, st1) \<Rightarrow>
           if r1 \<noteq> hipSuccess then Inl (Couldnt_select_GPU, st1)
           else if INT_MAX < i * 4096 then Inl (Signed_int_overflow, st1)
           else (case call_hip env (hipMemcpyAsync (i mod 4) (i * 4096) 4096) st1 of (r2, st2) \<Rightarrow>
             copy_loop env len (Suc i) st2))
      else Inr st)"
  by pat_completeness auto
termination
  by (relation "measure (\<lambda>(env, len, i, st). unat len div 4096 - i)") auto

declare copy_loop.simps [simp del]

text \<open>
  Lines 284 to 292: select each GPU and wait for its copies.
\<close>

function sync_loop :: "env \<Rightarrow> nat \<Rightarrow> state \<Rightarrow> state result" where
  "sync_loop env i st =
     (if i < NUM_GPUS then
        (case call_hip env (hipSetDevice i) st of (r1, st1) \<Rightarrow>
           if r1 \<noteq> hipSuccess then Inl (Couldnt_select_GPU, st1)
           else (case call_hip env (hipDeviceSynchronize (cur_device st1)) st1 of (r2, st2) \<Rightarrow>
             if r2 \<noteq> hipSuccess then Inl (Couldnt_synchronize_stream, st2)
             else sync_loop env (Suc i) st2))
      else Inr st)"
  by pat_completeness auto
termination
  by (relation "measure (\<lambda>(env, i, st). NUM_GPUS - i)") auto

declare sync_loop.simps [simp del]

text \<open>
  Lines 296 to 298:
  \<^verbatim>\<open>for (int i = 0; i < transfers; i++) { coyote_thread.invoke(REMOTE_RDMA_WRITE, sg); }\<close>
  with \<^verbatim>\<open>uint transfers\<close>: the \<^verbatim>\<open>int\<close> counter cannot pass \<^verbatim>\<open>INT_MAX\<close>.
\<close>

function invoke_loop :: "u32 \<Rightarrow> u32 \<Rightarrow> nat \<Rightarrow> state \<Rightarrow> state result" where
  "invoke_loop len transfers i st =
     (if i < unat transfers then
        (let st1 = log (Invoke_REMOTE_RDMA_WRITE len) st
         in if i = INT_MAX then Inl (Signed_int_overflow, st1)
            else invoke_loop len transfers (Suc i) st1)
      else Inr st)"
  by pat_completeness auto
termination
  by (relation "measure (\<lambda>(len, transfers, i, st). unat transfers - i)") auto

declare invoke_loop.simps [simp del]

text \<open>
  The fan-out as a whole (lines 246 to 292): the copies, then the wait on every GPU.
\<close>

definition fan_out :: "env \<Rightarrow> u32 \<Rightarrow> state \<Rightarrow> state result" where
  "fan_out env len st =
     (case copy_loop env len 0 st of
        Inl e \<Rightarrow> Inl e
      | Inr st1 \<Rightarrow> sync_loop env 0 st1)"

text \<open>
  One round: the body of the loop of lines 231 to 303.
\<close>

definition run_bench_round :: "env \<Rightarrow> u32 \<Rightarrow> u32 \<Rightarrow> bool \<Rightarrow> state \<Rightarrow> state result option" where
  "run_bench_round env len transfers operation st =
     (let st1 = log ClearCompleted st;
          st2 = log (ConnSync IS_CLIENT) st1
      in if operation then
           (case wait_completed env transfers st2 of
              None \<Rightarrow> None
            | Some st3 \<Rightarrow>
                (case fan_out env len st3 of
                   Inl e \<Rightarrow> Some (Inl e)
                 | Inr st4 \<Rightarrow> Some (invoke_loop len transfers 0 st4)))
         else Some (Inr st2))"

text \<open>
  Line 231: \<^verbatim>\<open>for (int i = 0; i < n_runs; i++)\<close> with \<^verbatim>\<open>uint n_runs\<close>.
\<close>

function rounds_loop ::
  "env \<Rightarrow> u32 \<Rightarrow> u32 \<Rightarrow> u32 \<Rightarrow> bool \<Rightarrow> nat \<Rightarrow> state \<Rightarrow> state result option" where
  "rounds_loop env len transfers n_runs operation i st =
     (if i < unat n_runs then
        (case run_bench_round env len transfers operation st of
           None \<Rightarrow> None
         | Some (Inl e) \<Rightarrow> Some (Inl e)
         | Some (Inr st1) \<Rightarrow>
             if i = INT_MAX then Some (Inl (Signed_int_overflow, st1))
             else rounds_loop env len transfers n_runs operation (Suc i) st1)
      else Some (Inr st))"
  by pat_completeness auto
termination
  by (relation "measure (\<lambda>(env, len, transfers, n_runs, operation, i, st). unat n_runs - i)") auto

declare rounds_loop.simps [simp del]

text \<open>
  Lines 306 to 310: the streams and events are destroyed; the return values are dropped.
\<close>

function destroy_loop :: "env \<Rightarrow> nat \<Rightarrow> state \<Rightarrow> state" where
  "destroy_loop env i st =
     (if i < NUM_GPUS then
        (case call_hip env (hipStreamDestroy i) st of (r1, st1) \<Rightarrow>
           (case call_hip env (hipEventDestroy i) st1 of (r2, st2) \<Rightarrow>
              destroy_loop env (Suc i) st2))
      else st)"
  by pat_completeness auto
termination
  by (relation "measure (\<lambda>(env, i, st). NUM_GPUS - i)") auto

declare destroy_loop.simps [simp del]

text \<open>
  \<^verbatim>\<open>run_bench(coyote_thread, sg, mem, dest_buffers, transfers, n_runs, operation)\<close>.
  The closing loop of lines 313 to 317 has an empty body (its assertion is commented
  out) and is left out.
\<close>

definition run_bench :: "env \<Rightarrow> u32 \<Rightarrow> u32 \<Rightarrow> u32 \<Rightarrow> bool \<Rightarrow> state \<Rightarrow> state result option" where
  "run_bench env len transfers n_runs operation st =
     (let st0 = log (Enter_run_bench len transfers n_runs operation) st;
          st1 = fill_loop len operation 0 st0
      in case create_loop env 0 st1 of
           Inl e \<Rightarrow> Some (Inl e)
         | Inr st2 \<Rightarrow>
             (case rounds_loop env len transfers n_runs operation 0 st2 of
                None \<Rightarrow> None
              | Some (Inl e) \<Rightarrow> Some (Inl e)
              | Some (Inr st3) \<Rightarrow> Some (Inr (destroy_loop env 0 st3))))"

section \<open>\<^verbatim>\<open>main\<close> of the scatter server (lines 320 to 407)\<close>

text \<open>
  \<^verbatim>\<open>constants.hpp\<close> is not among the sources: \<^verbatim>\<open>N_LATENCY_REPS\<close> is a parameter of
  the model, and so are the values of the command-line options after parsing.

  Lines 387 to 393, the sweep; \<^verbatim>\<open>curr_size\<close> is an \<^verbatim>\<open>unsigned int\<close>, so
  \<^verbatim>\<open>curr_size *= 2\<close> wraps around at \<open>2 ^ 32\<close>:
  \<^verbatim>\<open>while(curr_size <= max_size) {
    coyote::rdmaSg sg = { .len = curr_size };
    // run_bench(coyote_thread, sg, mem, N_THROUGHPUT_REPS, n_runs, operation);
    run_bench(coyote_thread, sg, mem, destination_buffers, N_LATENCY_REPS, n_runs+10, operation);
    curr_size *= 2;
  }\<close>
\<close>

partial_function (option) sweep ::
  "env \<Rightarrow> u32 \<Rightarrow> u32 \<Rightarrow> bool \<Rightarrow> u32 \<Rightarrow> u32 \<Rightarrow> state \<Rightarrow> state result option" where
  "sweep env N_LATENCY_REPS n_runs operation max_size curr_size st =
     (if curr_size \<le> max_size then
        (case run_bench env curr_size N_LATENCY_REPS (n_runs + 10) operation st of
           None \<Rightarrow> None
         | Some (Inl e) \<Rightarrow> Some (Inl e)
         | Some (Inr st1) \<Rightarrow>
             sweep env N_LATENCY_REPS n_runs operation max_size (curr_size * 2) st1)
      else Some (Inr st))"

declare sweep.simps [code]

text \<open>
  \<^verbatim>\<open>coyote_thread.getMem({coyote::CoyoteAllocType::GPU, max_size, false, gpu})\<close>
\<close>

definition get_mem :: "env \<Rightarrow> u32 \<Rightarrow> nat \<Rightarrow> state \<Rightarrow> bool \<times> state" where
  "get_mem env nbytes gpu st =
     (let ok = getMem_ok env (trace st) gpu in (ok, log (GetMem nbytes gpu ok) st))"

text \<open>
  Lines 396 to 407: each buffer is freed on its GPU,
  \<^verbatim>\<open>if (hipSetDevice(0)) { throw std::runtime_error("Couldn't select GPU!"); }
  hipFree(vaddr_1);\<close>
  and so on for GPUs 1, 2 and 3; then the final sync with the client and the return.
\<close>

definition free_on :: "env \<Rightarrow> nat \<Rightarrow> state \<Rightarrow> state result" where
  "free_on env gpu st =
     (case call_hip env (hipSetDevice gpu) st of (r1, st1) \<Rightarrow>
        if r1 \<noteq> hipSuccess then Inl (Couldnt_select_GPU, st1)
        else (case call_hip env (hipFree gpu) st1 of (r2, st2) \<Rightarrow> Inr st2))"

definition final_sync_and_exit :: "env \<Rightarrow> state \<Rightarrow> (nat \<times> state) result" where
  "final_sync_and_exit env st =
     (case free_on env 0 st of
        Inl e \<Rightarrow> Inl e
      | Inr st1 \<Rightarrow>
     (case free_on env 1 st1 of
        Inl e \<Rightarrow> Inl e
      | Inr st2 \<Rightarrow>
     (case free_on env 2 st2 of
        Inl e \<Rightarrow> Inl e
      | Inr st3 \<Rightarrow>
     (case free_on env 3 st3 of
        Inl e \<Rightarrow> Inl e
      | Inr st4 \<Rightarrow> Inr (EXIT_SUCCESS, log (ConnSync IS_CLIENT) st4)))))"

text \<open>
  Lines 343 to 383: the link and the staging buffer, then one buffer on each of the four
  GPUs. All four allocations are made before the pointers are checked.
\<close>

definition allocate_buffers :: "env \<Rightarrow> u32 \<Rightarrow> state \<Rightarrow> state result" where
  "allocate_buffers env max_size st =
     (let st1 = log (InitRDMA max_size (initRDMA_ok env)) st
      in if \<not> initRDMA_ok env then Inl (Could_not_allocate_memory, st1)
         else (case call_hip env (hipSetDevice 0) st1 of (r1, st2) \<Rightarrow>
           if r1 \<noteq> hipSuccess then Inl (Couldnt_select_GPU, st2)
           else (case get_mem env max_size 0 st2 of (vaddr_1, st3) \<Rightarrow>
                 case get_mem env max_size 1 st3 of (vaddr_2, st4) \<Rightarrow>
                 case get_mem env max_size 2 st4 of (vaddr_3, st5) \<Rightarrow>
                 case get_mem env max_size 3 st5 of (vaddr_4, st6) \<Rightarrow>
             if \<not> vaddr_1 \<or> \<not> vaddr_2 \<or> \<not> vaddr_3 \<or> \<not> vaddr_4
             then Inl (Could_not_allocate_scatter_buffers, st6)
             else (case call_hip env (hipSetDevice 0) st6 of (r2, st7) \<Rightarrow>
               if r2 \<noteq> hipSuccess then Inl (Couldnt_select_GPU, st7)
               else Inr st7))))"

text \<open>
  \<^verbatim>\<open>main\<close>, from the parsed options on. \<open>Inl\<close> is an exception nobody catches (the
  process is terminated), \<open>Inr (c, st)\<close> a return with exit status \<open>c\<close>, \<open>None\<close> a run
  that never ends.
\<close>

definition main ::
  "env \<Rightarrow> u32 \<Rightarrow> bool \<Rightarrow> u32 \<Rightarrow> u32 \<Rightarrow> u32 \<Rightarrow> state \<Rightarrow> (nat \<times> state) result option" where
  "main env N_LATENCY_REPS operation n_runs min_size max_size st =
     (case allocate_buffers env max_size st of
        Inl e \<Rightarrow> Some (Inl e)
      | Inr st1 \<Rightarrow>
          (case sweep env N_LATENCY_REPS n_runs operation max_size min_size st1 of
             None \<Rightarrow> None
           | Some (Inl e) \<Rightarrow> Some (Inl e)
           | Some (Inr st2) \<Rightarrow> Some (final_sync_and_exit env st2)))"

section \<open>The first listing: \<^verbatim>\<open>run_bench\<close> (lines 53 to 87) and \<^verbatim>\<open>main\<close> (lines 89 to 156)\<close>

text \<open>
  The first listing has no fan-out: a write-mode round waits for the quota and writes
  back at once.
\<close>

definition run_bench_round_v1 ::
  "env \<Rightarrow> u32 \<Rightarrow> u32 \<Rightarrow> bool \<Rightarrow> state \<Rightarrow> state result option" where
  "run_bench_round_v1 env len transfers operation st =
     (let st1 = log ClearCompleted st;
          st2 = log (ConnSync IS_CLIENT) st1
      in if operation then
           (case wait_completed env transfers st2 of
              None \<Rightarrow> None
            | Some st3 \<Rightarrow> Some (invoke_loop len transfers 0 st3))
         else Some (Inr st2))"

function rounds_loop_v1 ::
  "env \<Rightarrow> u32 \<Rightarrow> u32 \<Rightarrow> u32 \<Rightarrow> bool \<Rightarrow> nat \<Rightarrow> state \<Rightarrow> state result option" where
  "rounds_loop_v1 env len transfers n_runs operation i st =
     (if i < unat n_runs then
        (case run_bench_round_v1 env len transfers operation st of
           None \<Rightarrow> None
         | Some (Inl e) \<Rightarrow> Some (Inl e)
         | Some (Inr st1) \<Rightarrow>
             if i = INT_MAX then Some (Inl (Signed_int_overflow, st1))
             else rounds_loop_v1 env len transfers n_runs operation (Suc i) st1)
      else Some (Inr st))"
  by pat_completeness auto
termination
  by (relation "measure (\<lambda>(env, len, transfers, n_runs, operation, i, st). unat n_runs - i)") auto

declare rounds_loop_v1.simps [simp del]

definition run_bench_v1 ::
  "env \<Rightarrow> u32 \<Rightarrow> u32 \<Rightarrow> u32 \<Rightarrow> bool \<Rightarrow> state \<Rightarrow> state result option" where
  "run_bench_v1 env len transfers n_runs operation st =
     (let st0 = log (Enter_run_bench len transfers n_runs operation) st;
          st1 = fill_loop len operation 0 st0
      in rounds_loop_v1 env len transfers n_runs operation 0 st1)"

text \<open>
  Lines 145 to 151: the sweep of the first listing calls \<^verbatim>\<open>run_bench\<close> twice per size,
  \<^verbatim>\<open>while(curr_size <= max_size) {
    coyote::rdmaSg sg = { .len = curr_size };
    run_bench(coyote_thread, sg, mem, N_THROUGHPUT_REPS, n_runs, operation);
    run_bench(coyote_thread, sg, mem, N_LATENCY_REPS, n_runs, operation);
    curr_size *= 2;
  }\<close>
\<close>

partial_function (option) sweep_v1 ::
  "env \<Rightarrow> u32 \<Rightarrow> u32 \<Rightarrow> u32 \<Rightarrow> bool \<Rightarrow> u32 \<Rightarrow> u32 \<Rightarrow> state \<Rightarrow> state result option" where
  "sweep_v1 env N_THROUGHPUT_REPS N_LATENCY_REPS n_runs operation max_size curr_size st =
     (if curr_size \<le> max_size then
        (case run_bench_v1 env curr_size N_THROUGHPUT_REPS n_runs operation st of
           None \<Rightarrow> None
         | Some (Inl e) \<Rightarrow> Some (Inl e)
         | Some (Inr st1) \<Rightarrow>
             (case run_bench_v1 env curr_size N_LATENCY_REPS n_runs operation st1 of
                None \<Rightarrow> None
              | Some (Inl e) \<Rightarrow> Some (Inl e)
              | Some (Inr st2) \<Rightarrow>
                  sweep_v1 env N_THROUGHPUT_REPS N_LATENCY_REPS n_runs operation max_size
                    (curr_size * 2) st2))
      else Some (Inr st))"

declare sweep_v1.simps [code]

text \<open>
  \<^verbatim>\<open>main\<close> of the first listing. \<^verbatim>\<open>DEFAULT_GPU_ID\<close>, \<^verbatim>\<open>N_THROUGHPUT_REPS\<close> and
  \<^verbatim>\<open>N_LATENCY_REPS\<close> come from \<^verbatim>\<open>constants.hpp\<close> and are parameters. The four
  buffers are allocated on the one GPU, and their addresses are written to the
  registers \<^verbatim>\<open>VADDR_1\<close> to \<^verbatim>\<open>VADDR_4\<close> (0 to 3), then \<^verbatim>\<open>VADDR_VALID\<close> (4) is set.
\<close>

definition allocate_buffers_v1 :: "env \<Rightarrow> nat \<Rightarrow> u32 \<Rightarrow> state \<Rightarrow> state result" where
  "allocate_buffers_v1 env DEFAULT_GPU_ID max_size st =
     (let st1 = log (InitRDMA max_size (initRDMA_ok env)) st
      in if \<not> initRDMA_ok env then Inl (Could_not_allocate_memory, st1)
         else (case call_hip env (hipSetDevice DEFAULT_GPU_ID) st1 of (r1, st2) \<Rightarrow>
           if r1 \<noteq> hipSuccess then Inl (Couldnt_select_GPU, st2)
           else (case get_mem env max_size DEFAULT_GPU_ID st2 of (vaddr_1, st3) \<Rightarrow>
                 case get_mem env max_size DEFAULT_GPU_ID st3 of (vaddr_2, st4) \<Rightarrow>
                 case get_mem env max_size DEFAULT_GPU_ID st4 of (vaddr_3, st5) \<Rightarrow>
                 case get_mem env max_size DEFAULT_GPU_ID st5 of (vaddr_4, st6) \<Rightarrow>
             if \<not> vaddr_1 \<or> \<not> vaddr_2 \<or> \<not> vaddr_3 \<or> \<not> vaddr_4
             then Inl (Could_not_allocate_scatter_buffers, st6)
             else Inr (log (SetCSR 4) (log (SetCSR 3) (log (SetCSR 2) (log (SetCSR 1)
                         (log (SetCSR 0) st6))))))))"

definition main_v1 ::
  "env \<Rightarrow> nat \<Rightarrow> u32 \<Rightarrow> u32 \<Rightarrow> bool \<Rightarrow> u32 \<Rightarrow> u32 \<Rightarrow> u32 \<Rightarrow> state \<Rightarrow>
   (nat \<times> state) result option" where
  "main_v1 env DEFAULT_GPU_ID N_THROUGHPUT_REPS N_LATENCY_REPS operation n_runs min_size
       max_size st =
     (case allocate_buffers_v1 env DEFAULT_GPU_ID max_size st of
        Inl e \<Rightarrow> Some (Inl e)
      | Inr st1 \<Rightarrow>
          (case sweep_v1 env N_THROUGHPUT_REPS N_LATENCY_REPS n_runs operation
                  max_size min_size st1 of
             None \<Rightarrow> None
           | Some (Inl e) \<Rightarrow> Some (Inl e)
           | Some (Inr st2) \<Rightarrow> Some (Inr (EXIT_SUCCESS, log (ConnSync IS_CLIENT) st2))))"

section \<open>Observations on traces\<close>

text \<open>The trace a result carries, whether the call returned or threw.\<close>

fun trace_of :: "state result \<Rightarrow> event list" where
  "trace_of (Inl (e, st)) = trace st"
| "trace_of (Inr st) = trace st"

fun trace_of_main :: "(nat \<times> state) result \<Rightarrow> event list" where
  "trace_of_main (Inl (e, st)) = trace st"
| "trace_of_main (Inr (c, st)) = trace st"

text \<open>
  The chunk copies of a trace, in order: destination buffer, source element index into
  \<^verbatim>\<open>mem\<close>, byte count.
\<close>

fun copy_of :: "event \<Rightarrow> (nat \<times> nat \<times> nat) list" where
  "copy_of (Hip (hipMemcpyAsync d e n) r) = [(d, e, n)]"
| "copy_of _ = []"

definition copies :: "event list \<Rightarrow> (nat \<times> nat \<times> nat) list" where
  "copies tr = concat (map copy_of tr)"

definition copy_device :: "nat \<times> nat \<times> nat \<Rightarrow> nat" where
  "copy_device c = fst c"

definition copy_source_byte_offset :: "nat \<times> nat \<times> nat \<Rightarrow> nat" where
  "copy_source_byte_offset c = sizeof_int * fst (snd c)"

definition copy_bytes :: "nat \<times> nat \<times> nat \<Rightarrow> nat" where
  "copy_bytes c = snd (snd c)"

definition bytes_copied :: "event list \<Rightarrow> nat" where
  "bytes_copied tr = sum_list (map copy_bytes (copies tr))"

fun is_enter :: "event \<Rightarrow> bool" where
  "is_enter (Enter_run_bench len transfers n_runs operation) = True"
| "is_enter _ = False"

definition invocations :: "event list \<Rightarrow> event list" where
  "invocations tr = filter is_enter tr"

fun is_invoke :: "event \<Rightarrow> bool" where
  "is_invoke (Invoke_REMOTE_RDMA_WRITE len) = True"
| "is_invoke _ = False"

definition remote_writes :: "event list \<Rightarrow> event list" where
  "remote_writes tr = filter is_invoke tr"

text \<open>Every round starts with \<^verbatim>\<open>clearCompleted\<close>, and nothing else calls it.\<close>

definition rounds :: "event list \<Rightarrow> nat" where
  "rounds tr = count_list tr ClearCompleted"

fun is_poll :: "event \<Rightarrow> bool" where
  "is_poll (CheckCompleted v) = True"
| "is_poll _ = False"

fun is_hip :: "event \<Rightarrow> bool" where
  "is_hip (Hip c r) = True"
| "is_hip _ = False"

fun is_copy_phase :: "event \<Rightarrow> bool" where
  "is_copy_phase (Hip (hipSetDevice d) r) = True"
| "is_copy_phase (Hip (hipMemcpyAsync d e n) r) = True"
| "is_copy_phase _ = False"

fun is_sync_phase :: "event \<Rightarrow> bool" where
  "is_sync_phase (Hip (hipSetDevice d) r) = True"
| "is_sync_phase (Hip (hipDeviceSynchronize d) r) = True"
| "is_sync_phase _ = False"

fun is_failed_select :: "event \<Rightarrow> bool" where
  "is_failed_select (Hip (hipSetDevice d) r) = (r \<noteq> hipSuccess)"
| "is_failed_select _ = False"

section \<open>Environments and states for concrete runs\<close>

text \<open>
  \<open>env_ok\<close>: every HIP call and every allocation succeeds, and the completion count is
  \<open>1\<close> at the first poll. \<open>env_select_fails g\<close>: as \<open>env_ok\<close>, but GPU \<open>g\<close> cannot be
  selected. \<open>env_copy_fails\<close>: as \<open>env_ok\<close>, but no copy can be enqueued.
\<close>

definition env_ok :: env where
  "env_ok = \<lparr>hip_returns = (\<lambda>h c. hipSuccess), checkCompleted_returns = (\<lambda>h. 1),
     rdma_landed = (\<lambda>h m. m), initRDMA_ok = True, getMem_ok = (\<lambda>h g. True)\<rparr>"

fun select_fails :: "nat \<Rightarrow> hip_call \<Rightarrow> hipError_t" where
  "select_fails g (hipSetDevice d) = (if d = g then 1 else hipSuccess)"
| "select_fails g _ = hipSuccess"

definition env_select_fails :: "nat \<Rightarrow> env" where
  "env_select_fails g = env_ok\<lparr>hip_returns := (\<lambda>h. select_fails g)\<rparr>"

fun copy_fails :: "hip_call \<Rightarrow> hipError_t" where
  "copy_fails (hipMemcpyAsync d e n) = 1"
| "copy_fails _ = hipSuccess"

definition env_copy_fails :: env where
  "env_copy_fails = env_ok\<lparr>hip_returns := (\<lambda>h. copy_fails)\<rparr>"

definition st_init :: state where
  "st_init = \<lparr>trace = [], cur_device = 0, mem = (\<lambda>i. 0), dest_buffers = (\<lambda>d k. 0)\<rparr>"

text \<open>\<open>st_index\<close>: the staging buffer holds the index pattern \<^verbatim>\<open>mem[i] = i\<close>.\<close>

definition st_index :: state where
  "st_index = st_init\<lparr>mem := (\<lambda>i. of_nat i)\<rparr>"

section \<open>Basic facts\<close>

lemma copies_Nil [simp]: "copies [] = []"
  by (simp add: copies_def)

lemma copies_append [simp]: "copies (xs @ ys) = copies xs @ copies ys"
  by (simp add: copies_def)

lemma copies_Cons [simp]: "copies (e # xs) = copy_of e @ copies xs"
  by (simp add: copies_def)

lemma bytes_copied_Nil [simp]: "bytes_copied [] = 0"
  by (simp add: bytes_copied_def)

lemma bytes_copied_append [simp]: "bytes_copied (xs @ ys) = bytes_copied xs + bytes_copied ys"
  by (simp add: bytes_copied_def)

lemma invocations_Nil [simp]: "invocations [] = []"
  by (simp add: invocations_def)

lemma invocations_append [simp]: "invocations (xs @ ys) = invocations xs @ invocations ys"
  by (simp add: invocations_def)

lemma invocations_Cons [simp]:
  "invocations (e # xs) = (if is_enter e then e # invocations xs else invocations xs)"
  by (simp add: invocations_def)

lemma remote_writes_Nil [simp]: "remote_writes [] = []"
  by (simp add: remote_writes_def)

lemma remote_writes_append [simp]:
  "remote_writes (xs @ ys) = remote_writes xs @ remote_writes ys"
  by (simp add: remote_writes_def)

lemma remote_writes_Cons [simp]:
  "remote_writes (e # xs) = (if is_invoke e then e # remote_writes xs else remote_writes xs)"
  by (simp add: remote_writes_def)

lemma rounds_Nil [simp]: "rounds [] = 0"
  by (simp add: rounds_def)

lemma rounds_append [simp]: "rounds (xs @ ys) = rounds xs + rounds ys"
  by (induction xs) (simp_all add: rounds_def)

lemma rounds_Cons [simp]:
  "rounds (e # xs) = (if e = ClearCompleted then Suc (rounds xs) else rounds xs)"
  by (simp add: rounds_def)

lemma trace_log [simp]: "trace (log e st) = trace st @ [e]"
  by (simp add: log_def)

lemma mem_log [simp]: "mem (log e st) = mem st"
  by (simp add: log_def)

lemma dest_buffers_log [simp]: "dest_buffers (log e st) = dest_buffers st"
  by (simp add: log_def)

lemma cur_device_log [simp]: "cur_device (log e st) = cur_device st"
  by (simp add: log_def)

lemma trace_hip_effect [simp]: "trace (hip_effect c st) = trace st"
  by (cases c) simp_all

lemma mem_hip_effect [simp]: "mem (hip_effect c st) = mem st"
  by (cases c) simp_all

lemma call_hip_trace: "call_hip env c st = (r, st') \<Longrightarrow> trace st' = trace st @ [Hip c r]"
  by (auto simp: call_hip_def Let_def split: if_splits)

lemma call_hip_mem: "call_hip env c st = (r, st') \<Longrightarrow> mem st' = mem st"
  by (auto simp: call_hip_def Let_def split: if_splits)

lemma call_hip_returns: "call_hip env c st = (r, st') \<Longrightarrow> r = hip_returns env (trace st) c"
  by (auto simp: call_hip_def Let_def)

lemma call_hipSetDevice_dest:
  "call_hip env (hipSetDevice d) st = (r, st') \<Longrightarrow> dest_buffers st' = dest_buffers st"
  by (auto simp: call_hip_def Let_def split: if_splits)

lemma call_hipSetDevice_cur:
  "call_hip env (hipSetDevice d) st = (hipSuccess, st') \<Longrightarrow> cur_device st' = d"
  by (auto simp: call_hip_def Let_def split: if_splits)

lemma call_hipDeviceSynchronize_dest:
  "call_hip env (hipDeviceSynchronize d) st = (r, st') \<Longrightarrow> dest_buffers st' = dest_buffers st"
  by (auto simp: call_hip_def Let_def split: if_splits)

lemma call_hipMemcpyAsync_dest:
  "call_hip env (hipMemcpyAsync d e n) st = (r, st') \<Longrightarrow>
   dest_buffers st' =
     (if r = hipSuccess
      then (dest_buffers st)
             (d := (\<lambda>k. if k < n div sizeof_int then mem st (e + k) else dest_buffers st d k))
      else dest_buffers st)"
  by (auto simp: call_hip_def Let_def cong: if_cong)

section \<open>The copy loop\<close>

lemma copy_loop_Inr_induct [consumes 1, case_names stop step]:
  assumes run: "copy_loop env len i st = Inr st'"
    and base: "\<And>i st. \<not> i < unat len div 4096 \<Longrightarrow> P i st st"
    and step: "\<And>i st st1 r2 st2 st'.
        i < unat len div 4096 \<Longrightarrow>
        call_hip env (hipSetDevice (i mod 4)) st = (hipSuccess, st1) \<Longrightarrow>
        \<not> INT_MAX < i * 4096 \<Longrightarrow>
        call_hip env (hipMemcpyAsync (i mod 4) (i * 4096) 4096) st1 = (r2, st2) \<Longrightarrow>
        copy_loop env len (Suc i) st2 = Inr st' \<Longrightarrow>
        P (Suc i) st2 st' \<Longrightarrow> P i st st'"
  shows "P i st st'"
  using run
proof (induction "unat len div 4096 - i" arbitrary: i st)
  case 0
  then show ?case
    by (auto simp: copy_loop.simps[of env len i st] intro: base)
next
  case (Suc m)
  then have lt: "i < unat len div 4096"
    by simp
  obtain r1 st1 where c1: "call_hip env (hipSetDevice (i mod 4)) st = (r1, st1)"
    by force
  obtain r2 st2 where
    c2: "call_hip env (hipMemcpyAsync (i mod 4) (i * 4096) 4096) st1 = (r2, st2)"
    by force
  from Suc.prems lt c1 c2 have ok: "r1 = hipSuccess" "\<not> INT_MAX < i * 4096"
    and rest: "copy_loop env len (Suc i) st2 = Inr st'"
    by (auto simp: copy_loop.simps[of env len i st] split: if_splits)
  have "m = unat len div 4096 - Suc i"
    using Suc.hyps(2) by simp
  then have "P (Suc i) st2 st'"
    using Suc.hyps(1) rest by simp
  with lt c1 c2 ok rest show ?case
    by (auto intro: step)
qed

lemma copy_loop_copies:
  assumes "copy_loop env len i st = Inr st'"
  shows "copies (trace st') =
         copies (trace st) @ map (\<lambda>j. (j mod 4, j * 4096, 4096)) [i..<unat len div 4096]"
  using assms
proof (induction rule: copy_loop_Inr_induct)
  case (stop i st)
  then show ?case by simp
next
  case (step i st st1 r2 st2 st')
  then show ?case
    by (simp add: call_hip_trace upt_conv_Cons)
qed

lemma copy_loop_mem:
  assumes "copy_loop env len i st = Inr st'"
  shows "mem st' = mem st"
  using assms
  by (induction rule: copy_loop_Inr_induct) (simp_all add: call_hip_mem)

lemma copy_loop_tail_untouched:
  assumes "copy_loop env len i st = Inr st'"
  shows "1024 \<le> k \<Longrightarrow> dest_buffers st' d k = dest_buffers st d k"
  using assms
proof (induction rule: copy_loop_Inr_induct)
  case (stop i st)
  then show ?case by simp
next
  case (step i st st1 r2 st2 st')
  then show ?case
    by (simp add: call_hipSetDevice_dest call_hipMemcpyAsync_dest sizeof_int_def)
qed

lemma copy_loop_last_chunk:
  assumes "copy_loop env len i st = Inr st'"
    and ok: "\<And>h d e n. hip_returns env h (hipMemcpyAsync d e n) = hipSuccess"
  shows "((\<forall>j. i \<le> j \<and> j < unat len div 4096 \<longrightarrow> j mod 4 \<noteq> d) \<longrightarrow>
            dest_buffers st' d = dest_buffers st d) \<and>
         (\<forall>j k. i \<le> j \<and> j < unat len div 4096 \<and> j mod 4 = d \<and>
                (\<forall>j'. j < j' \<and> j' < unat len div 4096 \<longrightarrow> j' mod 4 \<noteq> d) \<and> k < 1024 \<longrightarrow>
            dest_buffers st' d k = mem st (j * 4096 + k))"
  using assms(1)
proof (induction rule: copy_loop_Inr_induct)
  case (stop i st)
  then show ?case by auto
next
  case (step i st st1 r2 st2 st')
  have r2: "r2 = hipSuccess"
    using call_hip_returns[OF step(4)] ok by simp
  have m1: "mem st1 = mem st" and m2: "mem st2 = mem st"
    using call_hip_mem[OF step(2)] call_hip_mem[OF step(4)] by simp_all
  have d2: "dest_buffers st2 =
      (dest_buffers st)(i mod 4 := (\<lambda>k. if k < 1024 then mem st (i * 4096 + k)
                                          else dest_buffers st (i mod 4) k))"
    using call_hipMemcpyAsync_dest[OF step(4)] call_hipSetDevice_dest[OF step(2)] r2 m1
    by (simp add: sizeof_int_def cong: if_cong)
  show ?case
  proof (intro conjI impI allI)
    assume none: "\<forall>j. i \<le> j \<and> j < unat len div 4096 \<longrightarrow> j mod 4 \<noteq> d"
    then have "i mod 4 \<noteq> d" using step(1) by auto
    moreover from none have "\<forall>j. Suc i \<le> j \<and> j < unat len div 4096 \<longrightarrow> j mod 4 \<noteq> d"
      by auto
    ultimately show "dest_buffers st' d = dest_buffers st d"
      using step.IH d2 by auto
  next
    fix j k :: nat
    assume a: "i \<le> j \<and> j < unat len div 4096 \<and> j mod 4 = d \<and>
      (\<forall>j'. j < j' \<and> j' < unat len div 4096 \<longrightarrow> j' mod 4 \<noteq> d) \<and> k < 1024"
    show "dest_buffers st' d k = mem st (j * 4096 + k)"
    proof (cases "j = i")
      case True
      with a have "\<forall>j'. Suc i \<le> j' \<and> j' < unat len div 4096 \<longrightarrow> j' mod 4 \<noteq> d"
        by auto
      then have "dest_buffers st' d = dest_buffers st2 d"
        using step.IH by blast
      with True a d2 show ?thesis by auto
    next
      case False
      with a have "Suc i \<le> j" by auto
      with a step.IH m2 show ?thesis by auto
    qed
  qed
qed

section \<open>Loops that only call the HIP runtime\<close>

text \<open>
  What each loop adds to the trace, whether it returns or throws, and what it leaves
  behind when it returns.
\<close>

lemma sync_loop_trace:
  "\<exists>tr. trace_of (sync_loop env i st) = trace st @ tr \<and> (\<forall>e\<in>set tr. is_sync_phase e) \<and>
        (Bex (set tr) is_failed_select \<longrightarrow> (\<exists>s. sync_loop env i st = Inl (Couldnt_select_GPU, s)))"
proof (induction "NUM_GPUS - i" arbitrary: i st)
  case 0
  then show ?case
    by (simp add: sync_loop.simps[of env i st])
next
  case (Suc m)
  then have lt: "i < NUM_GPUS"
    by simp
  obtain r1 st1 where c1: "call_hip env (hipSetDevice i) st = (r1, st1)"
    by force
  obtain r2 st2 where c2: "call_hip env (hipDeviceSynchronize (cur_device st1)) st1 = (r2, st2)"
    by force
  have "m = NUM_GPUS - Suc i"
    using Suc.hyps(2) by simp
  from Suc.hyps(1)[OF this, of st2] obtain tr where
    tr: "trace_of (sync_loop env (Suc i) st2) = trace st2 @ tr" "\<forall>e\<in>set tr. is_sync_phase e"
      "Bex (set tr) is_failed_select \<longrightarrow> (\<exists>s. sync_loop env (Suc i) st2 = Inl (Couldnt_select_GPU, s))"
    by blast
  show ?case
    using lt c1 c2 tr call_hip_trace[OF c1] call_hip_trace[OF c2]
    by (auto simp: sync_loop.simps[of env i st])
qed


lemma sync_loop_Inr:
  "sync_loop env i st = Inr st' \<Longrightarrow>
   trace st' = trace st @
     concat (map (\<lambda>d. [Hip (hipSetDevice d) hipSuccess, Hip (hipDeviceSynchronize d) hipSuccess])
       [i..<NUM_GPUS]) \<and>
   mem st' = mem st \<and> dest_buffers st' = dest_buffers st"
proof (induction "NUM_GPUS - i" arbitrary: i st)
  case 0
  then show ?case
    by (simp add: sync_loop.simps[of env i st])
next
  case (Suc m)
  then have lt: "i < NUM_GPUS"
    by simp
  obtain r1 st1 where c1: "call_hip env (hipSetDevice i) st = (r1, st1)"
    by force
  obtain r2 st2 where c2: "call_hip env (hipDeviceSynchronize (cur_device st1)) st1 = (r2, st2)"
    by force
  from Suc.prems lt c1 c2 have ok: "r1 = hipSuccess" "r2 = hipSuccess"
    and rest: "sync_loop env (Suc i) st2 = Inr st'"
    by (auto simp: sync_loop.simps[of env i st] split: if_splits)
  have cur: "cur_device st1 = i"
    using c1 ok by (simp add: call_hipSetDevice_cur)
  have "m = NUM_GPUS - Suc i"
    using Suc.hyps(2) by simp
  from Suc.hyps(1)[OF this rest] show ?case
    using lt ok cur call_hip_trace[OF c1] call_hip_trace[OF c2] call_hip_mem[OF c1]
      call_hip_mem[OF c2] call_hipSetDevice_dest[OF c1] call_hipDeviceSynchronize_dest[OF c2]
    by (simp add: upt_conv_Cons)
qed

lemma copy_loop_trace:
  "\<exists>tr. trace_of (copy_loop env len i st) = trace st @ tr \<and> (\<forall>e\<in>set tr. is_copy_phase e) \<and>
        (Bex (set tr) is_failed_select \<longrightarrow>
           (\<exists>s. copy_loop env len i st = Inl (Couldnt_select_GPU, s)))"
proof (induction "unat len div 4096 - i" arbitrary: i st)
  case 0
  then show ?case
    by (simp add: copy_loop.simps[of env len i st])
next
  case (Suc m)
  then have lt: "i < unat len div 4096"
    by simp
  obtain r1 st1 where c1: "call_hip env (hipSetDevice (i mod 4)) st = (r1, st1)"
    by force
  obtain r2 st2 where
    c2: "call_hip env (hipMemcpyAsync (i mod 4) (i * 4096) 4096) st1 = (r2, st2)"
    by force
  have "m = unat len div 4096 - Suc i"
    using Suc.hyps(2) by simp
  from Suc.hyps(1)[OF this, of st2] obtain tr where
    tr: "trace_of (copy_loop env len (Suc i) st2) = trace st2 @ tr"
      "\<forall>e\<in>set tr. is_copy_phase e"
      "Bex (set tr) is_failed_select \<longrightarrow>
         (\<exists>s. copy_loop env len (Suc i) st2 = Inl (Couldnt_select_GPU, s))"
    by blast
  show ?case
    using lt c1 c2 tr call_hip_trace[OF c1] call_hip_trace[OF c2]
    by (auto simp: copy_loop.simps[of env len i st])
qed

lemma create_loop_trace:
  "\<exists>tr. trace_of (create_loop env i st) = trace st @ tr \<and>
        (\<forall>e\<in>set tr. is_hip e \<and> copy_of e = [])"
proof (induction "NUM_GPUS - i" arbitrary: i st)
  case 0
  then show ?case
    by (simp add: create_loop.simps[of env i st])
next
  case (Suc m)
  then have lt: "i < NUM_GPUS"
    by simp
  obtain r1 st1 where c1: "call_hip env (hipSetDevice i) st = (r1, st1)"
    by force
  obtain r2 st2 where c2: "call_hip env (hipStreamCreate i) st1 = (r2, st2)"
    by force
  obtain r3 st3 where c3: "call_hip env (hipEventCreate i) st2 = (r3, st3)"
    by force
  have "m = NUM_GPUS - Suc i"
    using Suc.hyps(2) by simp
  from Suc.hyps(1)[OF this, of st3] obtain tr where
    tr: "trace_of (create_loop env (Suc i) st3) = trace st3 @ tr"
      "\<forall>e\<in>set tr. is_hip e \<and> copy_of e = []"
    by blast
  show ?case
    using lt c1 c2 c3 tr call_hip_trace[OF c1] call_hip_trace[OF c2] call_hip_trace[OF c3]
    by (auto simp: create_loop.simps[of env i st])
qed

lemma destroy_loop_trace:
  "\<exists>tr. trace (destroy_loop env i st) = trace st @ tr \<and>
        (\<forall>e\<in>set tr. is_hip e \<and> copy_of e = [])"
proof (induction "NUM_GPUS - i" arbitrary: i st)
  case 0
  then show ?case
    by (simp add: destroy_loop.simps[of env i st])
next
  case (Suc m)
  then have lt: "i < NUM_GPUS"
    by simp
  obtain r1 st1 where c1: "call_hip env (hipStreamDestroy i) st = (r1, st1)"
    by force
  obtain r2 st2 where c2: "call_hip env (hipEventDestroy i) st1 = (r2, st2)"
    by force
  have "m = NUM_GPUS - Suc i"
    using Suc.hyps(2) by simp
  from Suc.hyps(1)[OF this, of st2] obtain tr where
    tr: "trace (destroy_loop env (Suc i) st2) = trace st2 @ tr"
      "\<forall>e\<in>set tr. is_hip e \<and> copy_of e = []"
    by blast
  show ?case
    using lt c1 c2 tr call_hip_trace[OF c1] call_hip_trace[OF c2]
    by (auto simp: destroy_loop.simps[of env i st])
qed

lemma free_on_trace:
  "\<exists>tr. trace_of (free_on env gpu st) = trace st @ tr \<and>
        (\<forall>e\<in>set tr. is_hip e \<and> copy_of e = [])"
proof -
  obtain r1 st1 where c1: "call_hip env (hipSetDevice gpu) st = (r1, st1)"
    by force
  obtain r2 st2 where c2: "call_hip env (hipFree gpu) st1 = (r2, st2)"
    by force
  show ?thesis
    using c1 c2 call_hip_trace[OF c1] call_hip_trace[OF c2]
    by (auto simp: free_on_def)
qed

lemma free_on_ok:
  assumes "\<And>h d. hip_returns env h (hipSetDevice d) = hipSuccess"
  shows "\<exists>st'. free_on env gpu st = Inr st'"
proof -
  obtain r1 st1 where c1: "call_hip env (hipSetDevice gpu) st = (r1, st1)"
    by force
  obtain r2 st2 where c2: "call_hip env (hipFree gpu) st1 = (r2, st2)"
    by force
  have "r1 = hipSuccess"
    using call_hip_returns[OF c1] assms by simp
  with c1 c2 show ?thesis
    by (simp add: free_on_def)
qed

lemma invoke_loop_trace:
  "\<exists>tr. trace_of (invoke_loop len transfers i st) = trace st @ tr \<and>
        (\<forall>e\<in>set tr. e = Invoke_REMOTE_RDMA_WRITE len)"
proof (induction "unat transfers - i" arbitrary: i st)
  case 0
  then show ?case
    by (simp add: invoke_loop.simps[of len transfers i st])
next
  case (Suc m)
  then have lt: "i < unat transfers"
    by simp
  have "m = unat transfers - Suc i"
    using Suc.hyps(2) by simp
  from Suc.hyps(1)[OF this, of "log (Invoke_REMOTE_RDMA_WRITE len) st"] obtain tr where
    tr: "trace_of (invoke_loop len transfers (Suc i) (log (Invoke_REMOTE_RDMA_WRITE len) st)) =
           trace (log (Invoke_REMOTE_RDMA_WRITE len) st) @ tr"
      "\<forall>e\<in>set tr. e = Invoke_REMOTE_RDMA_WRITE len"
    by blast
  show ?case
    using lt tr by (auto simp: invoke_loop.simps[of len transfers i st] Let_def)
qed

lemma invoke_loop_Inr:
  "invoke_loop len transfers i st = Inr st' \<Longrightarrow>
   trace st' = trace st @ replicate (unat transfers - i) (Invoke_REMOTE_RDMA_WRITE len)"
proof (induction "unat transfers - i" arbitrary: i st)
  case 0
  then show ?case
    by (simp add: invoke_loop.simps[of len transfers i st])
next
  case (Suc m)
  then have lt: "i < unat transfers"
    by simp
  from Suc.prems lt have
    rest: "invoke_loop len transfers (Suc i) (log (Invoke_REMOTE_RDMA_WRITE len) st) = Inr st'"
    by (auto simp: invoke_loop.simps[of len transfers i st] Let_def split: if_splits)
  have m: "m = unat transfers - Suc i"
    using Suc.hyps(2) by simp
  have "unat transfers - i = Suc (unat transfers - Suc i)"
    using lt by simp
  with Suc.hyps(1)[OF m rest] show ?case
    by (simp add: replicate_append_same)
qed

lemma fill_loop_trace [simp]: "trace (fill_loop len operation i st) = trace st"
proof (induction "unat len div sizeof_int - i" arbitrary: i st)
  case 0
  then show ?case
    by (simp add: fill_loop.simps[of len operation i st])
next
  case (Suc m)
  then have lt: "i < unat len div sizeof_int"
    by simp
  have "m = unat len div sizeof_int - Suc i"
    using Suc.hyps(2) by simp
  from Suc.hyps(1)[OF this] lt show ?case
    by (simp add: fill_loop.simps[of len operation i st])
qed

lemma wait_completed_trace:
  "wait_completed env transfers st = Some st' \<Longrightarrow>
   \<exists>polls. trace st' = trace st @ polls @ [CheckCompleted transfers] \<and>
           (\<forall>e\<in>set polls. is_poll e \<and> e \<noteq> CheckCompleted transfers)"
proof (induction rule: wait_completed.raw_induct[rotated 1, consumes 1])
  case (1 wait_completed env transfers st st')
  show ?case
  proof (cases "checkCompleted_returns env (trace st) = transfers")
    case True
    with 1(2) show ?thesis
      by (auto simp: Let_def)
  next
    case False
    let ?st1 = "(log (CheckCompleted (checkCompleted_returns env (trace st))) st)
                  \<lparr>mem := rdma_landed env (trace st) (mem st)\<rparr>"
    from False 1(2) have "wait_completed env transfers ?st1 = Some st'"
      by (simp add: Let_def)
    from 1(1)[OF this] obtain polls where
      "trace st' = trace ?st1 @ polls @ [CheckCompleted transfers]"
      "\<forall>e\<in>set polls. is_poll e \<and> e \<noteq> CheckCompleted transfers"
      by blast
    then have "trace st' =
        trace st @ (CheckCompleted (checkCompleted_returns env (trace st)) # polls) @
          [CheckCompleted transfers] \<and>
        (\<forall>e\<in>set (CheckCompleted (checkCompleted_returns env (trace st)) # polls).
           is_poll e \<and> e \<noteq> CheckCompleted transfers)"
      using False by (simp add: log_def)
    then show ?thesis
      by blast
  qed
qed

lemma copy_loop_untouched_device:
  assumes "copy_loop env len i st = Inr st'"
  shows "(\<forall>j. i \<le> j \<and> j < unat len div 4096 \<longrightarrow> j mod 4 \<noteq> d) \<Longrightarrow>
         dest_buffers st' d = dest_buffers st d"
  using assms
proof (induction rule: copy_loop_Inr_induct)
  case (stop i st)
  then show ?case by simp
next
  case (step i st st1 r2 st2 st')
  from step.prems step(1) have "i mod 4 \<noteq> d"
    by auto
  moreover from step.prems have "\<forall>j. Suc i \<le> j \<and> j < unat len div 4096 \<longrightarrow> j mod 4 \<noteq> d"
    by auto
  ultimately show ?case
    using step.IH call_hipMemcpyAsync_dest[OF step(4)] call_hipSetDevice_dest[OF step(2)]
    by auto
qed

lemma copy_loop_ok:
  assumes ok: "\<And>h d. hip_returns env h (hipSetDevice d) = hipSuccess"
    and small: "unat len div 4096 \<le> 524288"
  shows "\<exists>st'. copy_loop env len i st = Inr st'"
proof (induction "unat len div 4096 - i" arbitrary: i st)
  case 0
  then show ?case
    by (simp add: copy_loop.simps[of env len i st])
next
  case (Suc m)
  then have lt: "i < unat len div 4096"
    by simp
  obtain r1 st1 where c1: "call_hip env (hipSetDevice (i mod 4)) st = (r1, st1)"
    by force
  obtain r2 st2 where
    c2: "call_hip env (hipMemcpyAsync (i mod 4) (i * 4096) 4096) st1 = (r2, st2)"
    by force
  have r1: "r1 = hipSuccess"
    using call_hip_returns[OF c1] ok by simp
  have no_overflow: "\<not> INT_MAX < i * 4096"
    using lt small by (simp add: INT_MAX_def)
  have "m = unat len div 4096 - Suc i"
    using Suc.hyps(2) by simp
  from Suc.hyps(1)[OF this, of st2] show ?case
    using lt c1 c2 r1 no_overflow by (simp add: copy_loop.simps[of env len i st])
qed

lemma sync_loop_ok:
  assumes ok: "\<And>h c. hip_returns env h c = hipSuccess"
  shows "\<exists>st'. sync_loop env i st = Inr st'"
proof (induction "NUM_GPUS - i" arbitrary: i st)
  case 0
  then show ?case
    by (simp add: sync_loop.simps[of env i st])
next
  case (Suc m)
  then have lt: "i < NUM_GPUS"
    by simp
  obtain r1 st1 where c1: "call_hip env (hipSetDevice i) st = (r1, st1)"
    by force
  obtain r2 st2 where c2: "call_hip env (hipDeviceSynchronize (cur_device st1)) st1 = (r2, st2)"
    by force
  have r: "r1 = hipSuccess" "r2 = hipSuccess"
    using call_hip_returns[OF c1] call_hip_returns[OF c2] ok by simp_all
  have "m = NUM_GPUS - Suc i"
    using Suc.hyps(2) by simp
  from Suc.hyps(1)[OF this, of st2] show ?case
    using lt c1 c2 r by (simp add: sync_loop.simps[of env i st])
qed

lemma fan_out_ok:
  assumes ok: "\<And>h c. hip_returns env h c = hipSuccess"
    and small: "unat len div 4096 \<le> 524288"
  shows "\<exists>st'. fan_out env len st = Inr st'"
proof -
  obtain st1 where "copy_loop env len 0 st = Inr st1"
    using copy_loop_ok[of env len 0 st] ok small by blast
  moreover obtain st2 where "sync_loop env 0 st1 = Inr st2"
    using sync_loop_ok[of env 0 st1] ok by blast
  ultimately show ?thesis
    by (simp add: fan_out_def)
qed

lemma fan_out_Inr:
  assumes "fan_out env len st = Inr st'"
  obtains st1 where "copy_loop env len 0 st = Inr st1" "sync_loop env 0 st1 = Inr st'"
  using assms by (auto simp: fan_out_def split: sum.splits)

lemma sync_loop_copies:
  "sync_loop env i st = Inr st' \<Longrightarrow> copies (trace st') = copies (trace st)"
proof -
  assume "sync_loop env i st = Inr st'"
  moreover obtain tr where "trace_of (sync_loop env i st) = trace st @ tr"
    "\<forall>e\<in>set tr. is_sync_phase e"
    using sync_loop_trace[of env i st] by blast
  moreover have "(\<forall>e\<in>set tr. is_sync_phase e) \<Longrightarrow> copies tr = []" for tr
  proof (induction tr)
    case Nil
    then show ?case by simp
  next
    case (Cons e tr)
    then show ?case
      by (cases e rule: is_sync_phase.cases) auto
  qed
  ultimately show ?thesis
    by simp
qed

lemma fan_out_copies:
  assumes "fan_out env len st = Inr st'"
  shows "copies (trace st') =
         copies (trace st) @ map (\<lambda>j. (j mod 4, j * 4096, 4096)) [0..<unat len div 4096]"
proof -
  from assms obtain st1 where "copy_loop env len 0 st = Inr st1" "sync_loop env 0 st1 = Inr st'"
    by (rule fan_out_Inr)
  then show ?thesis
    using copy_loop_copies[of env len 0 st st1] sync_loop_copies[of env 0 st1 st'] by simp
qed

lemma env_ok_hip [simp]: "hip_returns env_ok h c = hipSuccess"
  by (simp add: env_ok_def)

section \<open>The fan-out: how many chunks, to which device, of what size\<close>

text \<open>
  Claim C2, as amended. Every fan-out that returns has issued exactly
  \<open>\<lfloor>L / 4096\<rfloor>\<close> copies (not \<open>\<lceil>L / 4096\<rceil>\<close>), chunk \<open>i\<close> to device buffer \<open>i mod 4\<close>
  counting from \<open>0\<close>, and every copy is of exactly 4096 bytes: no copy is a short final
  chunk. The statement is about the calls issued (how many, to which device, of what
  size); where each call reads is the subject of C10.
\<close>

theorem fan_out_chunks:
  assumes "fan_out env len st = Inr st'"
  shows "\<exists>new. copies (trace st') = copies (trace st) @ new \<and>
           length new = unat len div 4096 \<and>
           map copy_device new = map (\<lambda>i. i mod 4) [0..<unat len div 4096] \<and>
           map copy_bytes new = replicate (unat len div 4096) 4096"
proof -
  let ?new = "map (\<lambda>j. (j mod 4, j * 4096, 4096 :: nat)) [0..<unat len div 4096]"
  have "copies (trace st') = copies (trace st) @ ?new"
    using assms by (rule fan_out_copies)
  moreover have "map copy_device ?new = map (\<lambda>i. i mod 4) [0..<unat len div 4096]"
    by (simp add: copy_device_def)
  moreover have "map copy_bytes ?new = replicate (unat len div 4096) 4096"
    by (simp add: copy_bytes_def comp_def map_replicate_const)
  ultimately show ?thesis
    by (intro exI[of _ ?new]) simp
qed

text \<open>
  For \<open>L = 10000\<close> the fan-out issues two copies of 4096 bytes, to devices 0 and 1;
  no copy is issued to device 2 or 3, and none of 1808 bytes.
\<close>

theorem fan_out_chunks_witness:
  "\<exists>st'. fan_out env_ok 10000 st_init = Inr st' \<and>
         map copy_device (copies (trace st')) = [0, 1] \<and>
         map copy_bytes (copies (trace st')) = [4096, 4096]"
proof -
  obtain st' where run: "fan_out env_ok 10000 st_init = Inr st'"
    using fan_out_ok[of env_ok 10000 st_init] by auto
  have n: "unat (10000 :: u32) div 4096 = 2"
    by simp
  have "[0..<2] = [0, Suc 0]"
    by (simp add: upt_conv_Cons)
  with fan_out_chunks[OF run] n have
    "map copy_device (copies (trace st')) = [0, 1] \<and>
     map copy_bytes (copies (trace st')) = [4096, 4096]"
    by (auto simp: st_init_def numeral_2_eq_2)
  with run show ?thesis
    by auto
qed

text \<open>
  Claim C2 as stated fails at \<open>L = 10000\<close>: the number of copies is not
  \<open>\<lceil>10000 / 4096\<rceil> = 3\<close>, and the sizes are not 4096, 4096, 1808.
\<close>

theorem fan_out_chunks_counterexample:
  "length (copies (trace_of (fan_out env_ok 10000 st_init))) \<noteq> (10000 + 4095) div 4096 \<and>
   map copy_bytes (copies (trace_of (fan_out env_ok 10000 st_init))) \<noteq> [4096, 4096, 1808]"
proof -
  obtain st' where run: "fan_out env_ok 10000 st_init = Inr st'"
    using fan_out_ok[of env_ok 10000 st_init] by auto
  have "unat (10000 :: u32) div 4096 = 2"
    by simp
  with fan_out_copies[OF run] have "length (copies (trace st')) = 2"
    by (simp add: st_init_def)
  with run show ?thesis
    by auto
qed

section \<open>The fan-out: how many bytes\<close>

lemma bytes_copied_chunks:
  "sum_list (map copy_bytes (map (\<lambda>j. (j mod 4, j * 4096, 4096)) [i..<n])) = 4096 * (n - i)"
  by (induction n) (simp_all add: copy_bytes_def Suc_diff_le)

text \<open>
  Claim C1, as amended. When the fan-out returns, the copies it has issued amount to
  \<open>4096 * \<lfloor>L / 4096\<rfloor>\<close> bytes; that is \<open>L\<close> exactly when \<open>L\<close> is a multiple of 4096.
  Which bytes these are, and where they end up, is the subject of C10.
\<close>

theorem fan_out_bytes_copied:
  assumes "fan_out env len st = Inr st'"
  shows "bytes_copied (trace st') = bytes_copied (trace st) + 4096 * (unat len div 4096) \<and>
         (bytes_copied (trace st') - bytes_copied (trace st) = unat len) = (4096 dvd unat len)"
proof -
  have "bytes_copied (trace st') = bytes_copied (trace st) + 4096 * (unat len div 4096)"
    using fan_out_copies[OF assms] bytes_copied_chunks[of 0 "unat len div 4096"]
    by (simp add: bytes_copied_def)
  moreover have "(4096 * (unat len div 4096) = unat len) = (4096 dvd unat len)"
  proof
    assume "4096 * (unat len div 4096) = unat len"
    then have "unat len = 4096 * (unat len div 4096)"
      by simp
    then show "4096 dvd unat len"
      by (rule dvdI)
  next
    assume "4096 dvd unat len"
    then show "4096 * (unat len div 4096) = unat len"
      by simp
  qed
  ultimately show ?thesis
    by simp
qed

text \<open>For \<open>L = 8192\<close> all 8192 bytes are requested.\<close>

theorem fan_out_bytes_copied_witness:
  "\<exists>st'. fan_out env_ok 8192 st_init = Inr st' \<and> bytes_copied (trace st') = 8192"
proof -
  obtain st' where run: "fan_out env_ok 8192 st_init = Inr st'"
    using fan_out_ok[of env_ok 8192 st_init] by auto
  have "unat (8192 :: u32) div 4096 = 2"
    by simp
  with fan_out_bytes_copied[OF run] have "bytes_copied (trace st') = 8192"
    by (simp add: st_init_def)
  with run show ?thesis
    by auto
qed

text \<open>
  Claim C1 as stated fails at \<open>L = 10000\<close>: the fan-out returns, and the bytes copied are
  8192, not 10000.
\<close>

theorem fan_out_bytes_copied_counterexample:
  "bytes_copied (trace_of (fan_out env_ok 10000 st_init)) \<noteq> unat (10000 :: u32)"
proof -
  obtain st' where run: "fan_out env_ok 10000 st_init = Inr st'"
    using fan_out_ok[of env_ok 10000 st_init] by auto
  have "unat (10000 :: u32) div 4096 = 2"
    by simp
  with fan_out_copies[OF run] bytes_copied_chunks[of 0 2] have "bytes_copied (trace st') = 8192"
    by (simp add: st_init_def bytes_copied_def)
  with run show ?thesis
    by simp
qed

section \<open>The fan-out: which bytes, and where they land\<close>

lemma fan_out_buffers:
  assumes "fan_out env len st = Inr st'"
  obtains st1 where "copy_loop env len 0 st = Inr st1" "dest_buffers st' = dest_buffers st1"
  using assms sync_loop_Inr by (auto elim!: fan_out_Inr)

text \<open>
  Claim C10. In a fan-out that returns, chunk \<open>i\<close> is read at element \<open>i * 4096\<close> of
  \<^verbatim>\<open>int *mem\<close>, that is at byte offset \<open>i * 16384\<close>, and is written to the start of
  device buffer \<open>i mod 4\<close>. So no device buffer changes past its first 1024 elements
  (4096 bytes); a buffer no chunk is routed to does not change at all; and, when every
  copy succeeds, the first 1024 elements of a buffer are those of the last chunk routed to
  it, the earlier chunks being overwritten.
\<close>

theorem fan_out_placement:
  assumes "fan_out env len st = Inr st'"
  shows "(\<exists>new. copies (trace st') = copies (trace st) @ new \<and>
            map copy_source_byte_offset new = map (\<lambda>i. i * 16384) [0..<unat len div 4096] \<and>
            map copy_device new = map (\<lambda>i. i mod 4) [0..<unat len div 4096]) \<and>
         (\<forall>d k. 1024 \<le> k \<longrightarrow> dest_buffers st' d k = dest_buffers st d k) \<and>
         (\<forall>d. (\<forall>j. j < unat len div 4096 \<longrightarrow> j mod 4 \<noteq> d) \<longrightarrow>
              dest_buffers st' d = dest_buffers st d) \<and>
         ((\<forall>h d e n. hip_returns env h (hipMemcpyAsync d e n) = hipSuccess) \<longrightarrow>
          (\<forall>d j k. j < unat len div 4096 \<and> j mod 4 = d \<and>
                   (\<forall>j'. j < j' \<and> j' < unat len div 4096 \<longrightarrow> j' mod 4 \<noteq> d) \<and> k < 1024 \<longrightarrow>
             dest_buffers st' d k = mem st (j * 4096 + k)))"
proof -
  from assms obtain st1 where run: "copy_loop env len 0 st = Inr st1"
    and same: "dest_buffers st' = dest_buffers st1"
    by (rule fan_out_buffers)
  let ?new = "map (\<lambda>j. (j mod 4, j * 4096, 4096 :: nat)) [0..<unat len div 4096]"
  have "copies (trace st') = copies (trace st) @ ?new"
    using assms by (rule fan_out_copies)
  moreover have "map copy_source_byte_offset ?new = map (\<lambda>i. i * 16384) [0..<unat len div 4096]"
    by (simp add: copy_source_byte_offset_def sizeof_int_def)
  moreover have "map copy_device ?new = map (\<lambda>i. i mod 4) [0..<unat len div 4096]"
    by (simp add: copy_device_def)
  ultimately have first: "\<exists>new. copies (trace st') = copies (trace st) @ new \<and>
      map copy_source_byte_offset new = map (\<lambda>i. i * 16384) [0..<unat len div 4096] \<and>
      map copy_device new = map (\<lambda>i. i mod 4) [0..<unat len div 4096]"
    by (intro exI[of _ ?new]) simp
  have second: "\<forall>d k. 1024 \<le> k \<longrightarrow> dest_buffers st' d k = dest_buffers st d k"
    using copy_loop_tail_untouched[OF run] same by simp
  have third: "\<forall>d. (\<forall>j. j < unat len div 4096 \<longrightarrow> j mod 4 \<noteq> d) \<longrightarrow>
      dest_buffers st' d = dest_buffers st d"
    using copy_loop_untouched_device[OF run] same by simp
  have fourth: "(\<forall>h d e n. hip_returns env h (hipMemcpyAsync d e n) = hipSuccess) \<longrightarrow>
      (\<forall>d j k. j < unat len div 4096 \<and> j mod 4 = d \<and>
               (\<forall>j'. j < j' \<and> j' < unat len div 4096 \<longrightarrow> j' mod 4 \<noteq> d) \<and> k < 1024 \<longrightarrow>
         dest_buffers st' d k = mem st (j * 4096 + k))"
  proof (intro impI allI)
    fix d j k :: nat
    assume ok: "\<forall>h d e n. hip_returns env h (hipMemcpyAsync d e n) = hipSuccess"
      and last: "j < unat len div 4096 \<and> j mod 4 = d \<and>
        (\<forall>j'. j < j' \<and> j' < unat len div 4096 \<longrightarrow> j' mod 4 \<noteq> d) \<and> k < 1024"
    from ok have "\<And>h d e n. hip_returns env h (hipMemcpyAsync d e n) = hipSuccess"
      by simp
    from copy_loop_last_chunk[OF run this, of d] last same
    show "dest_buffers st' d k = mem st (j * 4096 + k)"
      by simp
  qed
  show ?thesis
    by (intro conjI first second third fourth)
qed

text \<open>
  For \<open>L = 32768\<close> (eight chunks) over the index pattern: chunks 0 and 4 both go to
  device 0; afterwards its buffer starts with element \<open>4 * 4096 = 16384\<close> of \<open>mem\<close>, the
  start of chunk 4, and is unchanged from element 1024 on.
\<close>

theorem fan_out_placement_witness:
  "\<exists>st'. fan_out env_ok 32768 st_index = Inr st' \<and>
         map copy_source_byte_offset (copies (trace st')) =
           [0, 16384, 32768, 49152, 65536, 81920, 98304, 114688] \<and>
         map copy_device (copies (trace st')) = [0, 1, 2, 3, 0, 1, 2, 3] \<and>
         dest_buffers st' 0 0 = 16384 \<and> dest_buffers st' 0 1023 = 17407 \<and>
         dest_buffers st' 0 1024 = 0"
proof -
  obtain st' where run: "fan_out env_ok 32768 st_index = Inr st'"
    using fan_out_ok[of env_ok 32768 st_index] by auto
  have n: "unat (32768 :: u32) div 4096 = 8"
    by simp
  have upt: "[0..<8] = [0, 1, 2, 3, 4, 5, 6, 7 :: nat]"
    by (simp add: upt_conv_Cons)
  have last: "\<forall>j'. 4 < j' \<and> j' < (8 :: nat) \<longrightarrow> j' mod 4 \<noteq> 0"
    by presburger
  note inst = fan_out_placement[OF run, unfolded n]
  note first = inst[THEN conjunct1]
  note second = inst[THEN conjunct2, THEN conjunct1]
  note fourth = inst[THEN conjunct2, THEN conjunct2, THEN conjunct2]
  have ok: "\<forall>h d e n. hip_returns env_ok h (hipMemcpyAsync d e n) = hipSuccess"
    by simp
  from first upt have a:
    "map copy_source_byte_offset (copies (trace st')) =
       [0, 16384, 32768, 49152, 65536, 81920, 98304, 114688]"
    "map copy_device (copies (trace st')) = [0, 1, 2, 3, 0, 1, 2, 3]"
    by (auto simp: st_index_def st_init_def)
  have b: "dest_buffers st' 0 1024 = 0"
    using second[rule_format, of 1024 0] by (simp add: st_index_def st_init_def)
  have c: "dest_buffers st' 0 0 = 16384"
    using fourth[rule_format, OF env_ok_hip, of 4 0 0] last by (simp add: st_index_def st_init_def)
  have d: "dest_buffers st' 0 1023 = 17407"
    using fourth[rule_format, OF env_ok_hip, of 4 0 1023] last by (simp add: st_index_def st_init_def)
  show ?thesis
    by (rule exI[of _ st']) (simp only: run a b c d simp_thms)
qed

section \<open>One round\<close>

lemma sync_phase_not_copy: "is_sync_phase e \<Longrightarrow> \<not> is_invoke e \<and> \<not> is_poll e \<and> is_hip e"
  by (cases e rule: is_sync_phase.cases) simp_all

lemma copy_phase_hip: "is_copy_phase e \<Longrightarrow> \<not> is_invoke e \<and> \<not> is_poll e \<and> is_hip e"
  by (cases e rule: is_copy_phase.cases) simp_all

lemma fan_out_trace:
  "\<exists>fan syncs. trace_of (fan_out env len st) = trace st @ fan @ syncs \<and>
     (\<forall>e\<in>set fan. is_copy_phase e) \<and> (\<forall>e\<in>set syncs. is_sync_phase e) \<and>
     (Bex (set (fan @ syncs)) is_failed_select \<longrightarrow>
        (\<exists>s. fan_out env len st = Inl (Couldnt_select_GPU, s))) \<and>
     (isl (fan_out env len st) \<or>
      syncs = concat (map (\<lambda>d. [Hip (hipSetDevice d) hipSuccess,
                                 Hip (hipDeviceSynchronize d) hipSuccess]) [0..<NUM_GPUS]))"
proof -
  obtain fan where fan: "trace_of (copy_loop env len 0 st) = trace st @ fan"
    "\<forall>e\<in>set fan. is_copy_phase e"
    "Bex (set fan) is_failed_select \<longrightarrow> (\<exists>s. copy_loop env len 0 st = Inl (Couldnt_select_GPU, s))"
    using copy_loop_trace[of env len 0 st] by blast
  show ?thesis
  proof (cases "copy_loop env len 0 st")
    case (Inl e)
    then have "fan_out env len st = Inl e"
      by (simp add: fan_out_def)
    with Inl fan show ?thesis
      by (intro exI[of _ fan] exI[of _ "[]"]) auto
  next
    case (Inr st1)
    obtain syncs where syncs: "trace_of (sync_loop env 0 st1) = trace st1 @ syncs"
      "\<forall>e\<in>set syncs. is_sync_phase e"
      "Bex (set syncs) is_failed_select \<longrightarrow>
         (\<exists>s. sync_loop env 0 st1 = Inl (Couldnt_select_GPU, s))"
      using sync_loop_trace[of env 0 st1] by blast
    have eq: "fan_out env len st = sync_loop env 0 st1"
      using Inr by (simp add: fan_out_def)
    have nofail: "\<not> Bex (set fan) is_failed_select"
      using fan(3) Inr by auto
    have full: "isl (sync_loop env 0 st1) \<or>
      syncs = concat (map (\<lambda>d. [Hip (hipSetDevice d) hipSuccess,
                                 Hip (hipDeviceSynchronize d) hipSuccess]) [0..<NUM_GPUS])"
    proof (cases "sync_loop env 0 st1")
      case (Inl e)
      then show ?thesis by simp
    next
      case (Inr st2)
      from sync_loop_Inr[OF Inr] syncs(1) Inr show ?thesis
        by simp
    qed
    from fan(1) Inr have "trace st1 = trace st @ fan"
      by simp
    with syncs fan(2) nofail full eq show ?thesis
      by (intro exI[of _ fan] exI[of _ syncs]) auto
  qed
qed

lemma run_bench_round_write:
  assumes "run_bench_round env len transfers True st = Some r"
  shows "\<exists>polls fan syncs writes.
     trace_of r = trace st @ [ClearCompleted, ConnSync IS_CLIENT] @ polls @
                  [CheckCompleted transfers] @ fan @ syncs @ writes \<and>
     (\<forall>e\<in>set polls. is_poll e \<and> e \<noteq> CheckCompleted transfers) \<and>
     (\<forall>e\<in>set fan. is_copy_phase e) \<and>
     (\<forall>e\<in>set syncs. is_sync_phase e) \<and>
     (\<forall>e\<in>set writes. e = Invoke_REMOTE_RDMA_WRITE len) \<and>
     (Bex (set (fan @ syncs)) is_failed_select \<longrightarrow>
        writes = [] \<and> (\<exists>s. r = Inl (Couldnt_select_GPU, s))) \<and>
     (writes \<noteq> [] \<longrightarrow>
        syncs = concat (map (\<lambda>d. [Hip (hipSetDevice d) hipSuccess,
                                   Hip (hipDeviceSynchronize d) hipSuccess]) [0..<NUM_GPUS]))"
proof -
  let ?st2 = "log (ConnSync IS_CLIENT) (log ClearCompleted st)"
  from assms obtain st3 where wait: "wait_completed env transfers ?st2 = Some st3"
    and r: "r = (case fan_out env len st3 of Inl e \<Rightarrow> Inl e
                 | Inr st4 \<Rightarrow> invoke_loop len transfers 0 st4)"
    by (auto simp: run_bench_round_def Let_def split: option.splits sum.splits)
  from wait_completed_trace[OF wait] obtain polls where
    polls: "trace st3 = trace ?st2 @ polls @ [CheckCompleted transfers]"
      "\<forall>e\<in>set polls. is_poll e \<and> e \<noteq> CheckCompleted transfers"
    by blast
  obtain fan syncs where fs: "trace_of (fan_out env len st3) = trace st3 @ fan @ syncs"
    "\<forall>e\<in>set fan. is_copy_phase e" "\<forall>e\<in>set syncs. is_sync_phase e"
    "Bex (set (fan @ syncs)) is_failed_select \<longrightarrow>
       (\<exists>s. fan_out env len st3 = Inl (Couldnt_select_GPU, s))"
    "isl (fan_out env len st3) \<or>
      syncs = concat (map (\<lambda>d. [Hip (hipSetDevice d) hipSuccess,
                                 Hip (hipDeviceSynchronize d) hipSuccess]) [0..<NUM_GPUS])"
    using fan_out_trace[of env len st3] by blast
  have tr3: "trace st3 = trace st @ [ClearCompleted, ConnSync IS_CLIENT] @ polls @
                          [CheckCompleted transfers]"
    using polls(1) by simp
  show ?thesis
  proof (cases "fan_out env len st3")
    case (Inl e)
    with r have re: "r = Inl e"
      by simp
    have tr: "trace_of r = trace st3 @ fan @ syncs @ []"
      using fs(1) Inl re by simp
    have sel: "Bex (set (fan @ syncs)) is_failed_select \<longrightarrow>
                 [] = ([] :: event list) \<and> (\<exists>s. r = Inl (Couldnt_select_GPU, s))"
      using fs(4) Inl re by simp
    show ?thesis
      apply (rule exI[of _ polls], rule exI[of _ fan], rule exI[of _ syncs], rule exI[of _ "[]"])
      apply (intro conjI)
            apply (simp add: tr tr3)
           apply (rule polls(2))
          apply (rule fs(2))
         apply (rule fs(3))
        apply simp
       apply (rule sel)
      apply simp
      done
  next
    case (Inr st4)
    obtain writes where w: "trace_of (invoke_loop len transfers 0 st4) = trace st4 @ writes"
      "\<forall>e\<in>set writes. e = Invoke_REMOTE_RDMA_WRITE len"
      using invoke_loop_trace[of len transfers 0 st4] by blast
    from Inr r have re: "r = invoke_loop len transfers 0 st4"
      by simp
    have tr4: "trace st4 = trace st3 @ fan @ syncs"
      using fs(1) Inr by simp
    have tr: "trace_of r = trace st3 @ fan @ syncs @ writes"
      using w(1) re tr4 by simp
    have nofail: "\<not> Bex (set (fan @ syncs)) is_failed_select"
      using fs(4) Inr by auto
    have full: "syncs = concat (map (\<lambda>d. [Hip (hipSetDevice d) hipSuccess,
                                   Hip (hipDeviceSynchronize d) hipSuccess]) [0..<NUM_GPUS])"
      using fs(5) Inr by simp
    show ?thesis
      apply (rule exI[of _ polls], rule exI[of _ fan], rule exI[of _ syncs], rule exI[of _ writes])
      apply (intro conjI)
            apply (simp add: tr tr3)
           apply (rule polls(2))
          apply (rule fs(2))
         apply (rule fs(3))
        apply (rule w(2))
       apply (simp only: nofail simp_thms)
      apply (simp only: full[symmetric] simp_thms)
      done
  qed
qed

lemma remote_writes_none: "\<forall>e\<in>set tr. \<not> is_invoke e \<Longrightarrow> remote_writes tr = []"
  by (simp add: remote_writes_def)

lemma poll_not_invoke: "is_poll e \<Longrightarrow> \<not> is_invoke e"
  by (cases e) simp_all

lemma failed_select_not_poll: "is_failed_select e \<Longrightarrow> \<not> is_poll e \<and> \<not> is_invoke e"
  by (cases e rule: is_failed_select.cases) simp_all

lemmas eval_defs =
  run_bench_round_def wait_completed.simps fan_out_def copy_loop.simps sync_loop.simps
  invoke_loop.simps call_hip_def log_def IS_CLIENT_def NUM_GPUS_def INT_MAX_def Let_def
  st_init_def

lemma round_ok_8192:
  "map_option trace_of (run_bench_round env_ok 8192 1 True st_init) = Some
    [ClearCompleted, ConnSync False, CheckCompleted 1,
     Hip (hipSetDevice 0) 0, Hip (hipMemcpyAsync 0 0 4096) 0,
     Hip (hipSetDevice 1) 0, Hip (hipMemcpyAsync 1 4096 4096) 0,
     Hip (hipSetDevice 0) 0, Hip (hipDeviceSynchronize 0) 0,
     Hip (hipSetDevice 1) 0, Hip (hipDeviceSynchronize 1) 0,
     Hip (hipSetDevice 2) 0, Hip (hipDeviceSynchronize 2) 0,
     Hip (hipSetDevice 3) 0, Hip (hipDeviceSynchronize 3) 0,
     Invoke_REMOTE_RDMA_WRITE 8192]"
  by (simp add: eval_defs env_ok_def)

lemma round_select_fails:
  "map_option trace_of (run_bench_round (env_select_fails 2) 12288 1 True st_init) = Some
    [ClearCompleted, ConnSync False, CheckCompleted 1,
     Hip (hipSetDevice 0) 0, Hip (hipMemcpyAsync 0 0 4096) 0,
     Hip (hipSetDevice 1) 0, Hip (hipMemcpyAsync 1 4096 4096) 0,
     Hip (hipSetDevice 2) 1]"
  by (simp add: eval_defs env_select_fails_def env_ok_def)

text \<open>
  Claim C4. The events of a write-mode round come in phases, one after the other:
  \<^verbatim>\<open>clearCompleted\<close> and the sync with the client; the polls of the completion count, of
  which the last, and only the last, returned the quota \<open>transfers\<close>; the fan-out's device
  selections and copies; the selections and synchronisations of the GPUs; the remote
  writes. If there is any remote write at all, the synchronisation phase is complete:
  each of the four GPUs was selected and its \<^verbatim>\<open>hipDeviceSynchronize\<close> returned
  \<^verbatim>\<open>hipSuccess\<close>.
\<close>

theorem round_phases_sequential:
  assumes "run_bench_round env len transfers True st = Some r"
  shows "\<exists>polls fan syncs writes.
     trace_of r = trace st @ [ClearCompleted, ConnSync IS_CLIENT] @ polls @
                  [CheckCompleted transfers] @ fan @ syncs @ writes \<and>
     (\<forall>e\<in>set polls. is_poll e \<and> e \<noteq> CheckCompleted transfers) \<and>
     (\<forall>e\<in>set fan. is_copy_phase e) \<and>
     (\<forall>e\<in>set syncs. is_sync_phase e) \<and>
     (\<forall>e\<in>set writes. e = Invoke_REMOTE_RDMA_WRITE len) \<and>
     (writes \<noteq> [] \<longrightarrow>
        syncs = concat (map (\<lambda>d. [Hip (hipSetDevice d) hipSuccess,
                                   Hip (hipDeviceSynchronize d) hipSuccess]) [0..<NUM_GPUS]))"
  using run_bench_round_write[OF assms] by blast

text \<open>
  A round over 8192 bytes with quota 1 in an environment where everything succeeds: it
  returns, its trace splits into the phases, and it ends with the remote write.
\<close>

theorem round_phases_sequential_witness:
  "\<exists>r polls fan syncs writes.
     run_bench_round env_ok 8192 1 True st_init = Some r \<and>
     trace_of r = [ClearCompleted, ConnSync False] @ polls @ [CheckCompleted 1] @
                  fan @ syncs @ writes \<and>
     last (trace_of r) = Invoke_REMOTE_RDMA_WRITE 8192"
proof -
  from round_ok_8192 obtain r where run: "run_bench_round env_ok 8192 1 True st_init = Some r"
    and tr: "last (trace_of r) = Invoke_REMOTE_RDMA_WRITE 8192"
    by auto
  from round_phases_sequential[OF run] obtain polls fan syncs writes where
    "trace_of r = trace st_init @ [ClearCompleted, ConnSync IS_CLIENT] @ polls @
                  [CheckCompleted 1] @ fan @ syncs @ writes"
    by blast
  then have "trace_of r = [ClearCompleted, ConnSync False] @ polls @ [CheckCompleted 1] @
                  fan @ syncs @ writes"
    by (simp add: st_init_def IS_CLIENT_def)
  with run tr show ?thesis
    by blast
qed

text \<open>
  Claim C5. If, in a write-mode round, some \<^verbatim>\<open>hipSetDevice\<close> returns an error (during
  the copies or during the synchronisation), the round ends with the exception
  \<^verbatim>\<open>"Couldn't select GPU!"\<close>, it has issued no remote write, and the loop over the rounds
  ends with the same exception.
\<close>

theorem select_failure_aborts_round:
  assumes run: "run_bench_round env len transfers True st = Some r"
    and new: "trace_of r = trace st @ new"
    and failed: "Bex (set new) is_failed_select"
  shows "(\<exists>s. r = Inl (Couldnt_select_GPU, s)) \<and> remote_writes new = [] \<and>
         (i < unat n_runs \<longrightarrow> rounds_loop env len transfers n_runs True i st = Some r)"
proof -
  from run_bench_round_write[OF run] obtain polls fan syncs writes where
    tr: "trace_of r = trace st @ [ClearCompleted, ConnSync IS_CLIENT] @ polls @
                  [CheckCompleted transfers] @ fan @ syncs @ writes"
    and polls: "\<forall>e\<in>set polls. is_poll e \<and> e \<noteq> CheckCompleted transfers"
    and fan: "\<forall>e\<in>set fan. is_copy_phase e"
    and syncs: "\<forall>e\<in>set syncs. is_sync_phase e"
    and writes: "\<forall>e\<in>set writes. e = Invoke_REMOTE_RDMA_WRITE len"
    and sel: "Bex (set (fan @ syncs)) is_failed_select \<longrightarrow>
        writes = [] \<and> (\<exists>s. r = Inl (Couldnt_select_GPU, s))"
    by blast
  from tr new have new_eq: "new = [ClearCompleted, ConnSync IS_CLIENT] @ polls @
                  [CheckCompleted transfers] @ fan @ syncs @ writes"
    by simp
  from failed obtain e where e: "e \<in> set new" "is_failed_select e"
    by blast
  have "e \<in> set (fan @ syncs)"
  proof (rule ccontr)
    assume "e \<notin> set (fan @ syncs)"
    with e(1) new_eq have "e = ClearCompleted \<or> e = ConnSync IS_CLIENT \<or> e \<in> set polls \<or>
        e = CheckCompleted transfers \<or> e \<in> set writes"
      by auto
    with polls writes have "is_poll e \<or> is_invoke e \<or> e = ClearCompleted \<or> e = ConnSync IS_CLIENT"
      by auto
    with e(2) show False
      using failed_select_not_poll[of e] by auto
  qed
  with e(2) sel have w: "writes = []" and r: "\<exists>s. r = Inl (Couldnt_select_GPU, s)"
    by auto
  have "\<forall>e\<in>set new. \<not> is_invoke e"
    using new_eq w polls fan syncs copy_phase_hip sync_phase_not_copy poll_not_invoke by auto
  then have "remote_writes new = []"
    by (rule remote_writes_none)
  moreover have "i < unat n_runs \<longrightarrow> rounds_loop env len transfers n_runs True i st = Some r"
    using run r by (auto simp: rounds_loop.simps[of env len transfers n_runs True i st])
  ultimately show ?thesis
    using r by simp
qed

text \<open>
  GPU 2 cannot be selected, the region has three chunks: the round copies chunks 0
  and 1, throws at the selection for chunk 2, and writes nothing back.
\<close>

theorem select_failure_aborts_round_witness:
  "\<exists>s. run_bench_round (env_select_fails 2) 12288 1 True st_init =
          Some (Inl (Couldnt_select_GPU, s)) \<and>
        remote_writes (trace s) = [] \<and>
        last (trace s) = Hip (hipSetDevice 2) 1 \<and>
        rounds_loop (env_select_fails 2) 12288 1 10 True 0 st_init =
          Some (Inl (Couldnt_select_GPU, s))"
proof -
  let ?new = "[ClearCompleted, ConnSync False, CheckCompleted 1,
     Hip (hipSetDevice 0) 0, Hip (hipMemcpyAsync 0 0 4096) 0,
     Hip (hipSetDevice 1) 0, Hip (hipMemcpyAsync 1 4096 4096) 0,
     Hip (hipSetDevice 2) 1]"
  from round_select_fails obtain r where
    run: "run_bench_round (env_select_fails 2) 12288 1 True st_init = Some r"
    and tr: "trace_of r = ?new"
    by auto
  have new: "trace_of r = trace st_init @ ?new"
    using tr by (simp add: st_init_def)
  have failed: "Bex (set ?new) is_failed_select"
    by simp
  have lt: "0 < unat (10 :: u32)"
    by simp
  from select_failure_aborts_round[OF run new failed, of 0 10] lt obtain s where
    "r = Inl (Couldnt_select_GPU, s)" "remote_writes ?new = []"
    "rounds_loop (env_select_fails 2) 12288 1 10 True 0 st_init = Some r"
    by blast
  with run tr show ?thesis
    by (intro exI[of _ s]) simp
qed

text \<open>
  Claim C6 does not hold of the code. No copy can be enqueued (\<^verbatim>\<open>hipMemcpyAsync\<close>
  returns the error \<open>1\<close>), and yet the round returns normally: it goes on to synchronise
  the GPUs and issues the remote write.
\<close>

theorem copy_failure_ignored:
  "map_option isl (run_bench_round env_copy_fails 4096 1 True st_init) = Some False \<and>
   map_option trace_of (run_bench_round env_copy_fails 4096 1 True st_init) = Some
    [ClearCompleted, ConnSync False, CheckCompleted 1,
     Hip (hipSetDevice 0) 0, Hip (hipMemcpyAsync 0 0 4096) 1,
     Hip (hipSetDevice 0) 0, Hip (hipDeviceSynchronize 0) 0,
     Hip (hipSetDevice 1) 0, Hip (hipDeviceSynchronize 1) 0,
     Hip (hipSetDevice 2) 0, Hip (hipDeviceSynchronize 2) 0,
     Hip (hipSetDevice 3) 0, Hip (hipDeviceSynchronize 3) 0,
     Invoke_REMOTE_RDMA_WRITE 4096]"
  by (simp add: eval_defs env_copy_fails_def env_ok_def)

section \<open>\<^verbatim>\<open>run_bench\<close>: invocations and rounds\<close>

lemma invocations_none: "\<forall>e\<in>set tr. \<not> is_enter e \<Longrightarrow> invocations tr = []"
  by (simp add: invocations_def)

lemma rounds_none: "ClearCompleted \<notin> set tr \<Longrightarrow> rounds tr = 0"
  by (simp add: rounds_def)

lemma hip_plain: "is_hip e \<Longrightarrow> \<not> is_enter e \<and> e \<noteq> ClearCompleted"
  by (cases e) simp_all

lemma poll_plain: "is_poll e \<Longrightarrow> \<not> is_enter e \<and> e \<noteq> ClearCompleted"
  by (cases e) simp_all

lemma hip_list_plain:
  assumes "\<forall>e\<in>set tr. is_hip e"
  shows "invocations tr = [] \<and> rounds tr = 0"
proof -
  from assms have "\<forall>e\<in>set tr. \<not> is_enter e" "ClearCompleted \<notin> set tr"
    using hip_plain by blast+
  then show ?thesis
    by (simp add: invocations_none rounds_none)
qed

lemma round_write_plain:
  assumes "run_bench_round env len transfers True st = Some r"
  shows "\<exists>tr. trace_of r = trace st @ ClearCompleted # tr \<and> invocations tr = [] \<and> rounds tr = 0"
proof -
  from run_bench_round_write[OF assms] obtain polls fan syncs writes where
    tr: "trace_of r = trace st @ [ClearCompleted, ConnSync IS_CLIENT] @ polls @
                  [CheckCompleted transfers] @ fan @ syncs @ writes"
    and polls: "\<forall>e\<in>set polls. is_poll e \<and> e \<noteq> CheckCompleted transfers"
    and fan: "\<forall>e\<in>set fan. is_copy_phase e"
    and syncs: "\<forall>e\<in>set syncs. is_sync_phase e"
    and writes: "\<forall>e\<in>set writes. e = Invoke_REMOTE_RDMA_WRITE len"
    by blast
  let ?tr = "ConnSync IS_CLIENT # polls @ [CheckCompleted transfers] @ fan @ syncs @ writes"
  have "\<forall>e\<in>set ?tr. \<not> is_enter e \<and> e \<noteq> ClearCompleted"
    using polls fan syncs writes poll_plain hip_plain copy_phase_hip sync_phase_not_copy
    by auto
  then have "invocations ?tr = []" "rounds ?tr = 0"
    by (auto intro!: invocations_none rounds_none)
  with tr show ?thesis
    by (intro exI[of _ ?tr]) simp
qed

lemma round_read:
  "run_bench_round env len transfers False st =
     Some (Inr (log (ConnSync IS_CLIENT) (log ClearCompleted st)))"
  by (simp add: run_bench_round_def Let_def)

lemma round_plain:
  assumes "run_bench_round env len transfers operation st = Some r"
  shows "\<exists>tr. trace_of r = trace st @ ClearCompleted # tr \<and> invocations tr = [] \<and> rounds tr = 0"
proof (cases operation)
  case True
  with assms have "run_bench_round env len transfers True st = Some r"
    by simp
  then show ?thesis
    by (rule round_write_plain)
next
  case False
  with assms have "trace_of r = trace st @ ClearCompleted # [ConnSync IS_CLIENT]"
    by (auto simp: round_read)
  then show ?thesis
    by (intro exI[of _ "[ConnSync IS_CLIENT]"]) simp
qed

lemma rounds_loop_trace:
  "rounds_loop env len transfers n_runs operation i st = Some r \<Longrightarrow>
   \<exists>tr. trace_of r = trace st @ tr \<and> invocations tr = [] \<and>
        (\<not> isl r \<longrightarrow> rounds tr = unat n_runs - i)"
proof (induction "unat n_runs - i" arbitrary: i st)
  case 0
  then show ?case
    by (auto simp: rounds_loop.simps[of env len transfers n_runs operation i st])
next
  case (Suc m)
  then have lt: "i < unat n_runs"
    by simp
  have m: "m = unat n_runs - Suc i"
    using Suc.hyps(2) by simp
  from Suc.prems lt obtain r1 where
    r1: "run_bench_round env len transfers operation st = Some r1"
    by (auto simp: rounds_loop.simps[of env len transfers n_runs operation i st]
        split: option.splits)
  from round_plain[OF r1] obtain tr1 where
    tr1: "trace_of r1 = trace st @ ClearCompleted # tr1" "invocations tr1 = []" "rounds tr1 = 0"
    by blast
  have eq: "Some r = (case r1 of Inl e \<Rightarrow> Some (Inl e)
       | Inr st1 \<Rightarrow> if i = INT_MAX then Some (Inl (Signed_int_overflow, st1))
                   else rounds_loop env len transfers n_runs operation (Suc i) st1)"
    using Suc.prems lt r1
    by (simp add: rounds_loop.simps[of env len transfers n_runs operation i st])
  show ?case
  proof (cases r1)
    case (Inl e)
    with eq have "r = Inl e"
      by simp
    with Inl tr1 show ?thesis
      by (intro exI[of _ "ClearCompleted # tr1"]) auto
  next
    case (Inr st1)
    show ?thesis
    proof (cases "i = INT_MAX")
      case True
      with eq Inr have "r = Inl (Signed_int_overflow, st1)"
        by simp
      with Inr tr1 show ?thesis
        by (intro exI[of _ "ClearCompleted # tr1"]) auto
    next
      case False
      with eq Inr have
        rest: "rounds_loop env len transfers n_runs operation (Suc i) st1 = Some r"
        by simp
      from Suc.hyps(1)[OF m rest] obtain tr where
        tr: "trace_of r = trace st1 @ tr" "invocations tr = []"
          "\<not> isl r \<longrightarrow> rounds tr = unat n_runs - Suc i"
        by blast
      have "trace_of r = trace st @ (ClearCompleted # tr1 @ tr)"
        using tr(1) tr1(1) Inr by simp
      moreover have "invocations (ClearCompleted # tr1 @ tr) = []"
        using tr(2) tr1(2) by simp
      moreover have "\<not> isl r \<longrightarrow> rounds (ClearCompleted # tr1 @ tr) = unat n_runs - i"
        using tr(3) tr1(3) lt by auto
      ultimately show ?thesis
        by blast
    qed
  qed
qed

lemma rounds_loop_read:
  assumes ok: "unat n_runs \<le> INT_MAX"
  shows "\<exists>st'. rounds_loop env len transfers n_runs False i st = Some (Inr st')"
proof (induction "unat n_runs - i" arbitrary: i st)
  case 0
  then show ?case
    by (auto simp: rounds_loop.simps[of env len transfers n_runs False i st])
next
  case (Suc m)
  then have lt: "i < unat n_runs"
    by simp
  with ok have ne: "i \<noteq> INT_MAX"
    by simp
  have m: "m = unat n_runs - Suc i"
    using Suc.hyps(2) by simp
  from Suc.hyps(1)[OF m, of "log (ConnSync IS_CLIENT) (log ClearCompleted st)"] lt ne
  show ?case
    by (simp add: rounds_loop.simps[of env len transfers n_runs False i st] round_read)
qed

lemma rounds_loop_read_returns:
  "rounds_loop env len transfers n_runs False i st \<noteq> None"
proof (induction "unat n_runs - i" arbitrary: i st)
  case 0
  then show ?case
    by (auto simp: rounds_loop.simps[of env len transfers n_runs False i st])
next
  case (Suc m)
  then have lt: "i < unat n_runs"
    by simp
  have m: "m = unat n_runs - Suc i"
    using Suc.hyps(2) by simp
  from Suc.hyps(1)[OF m, of "log (ConnSync IS_CLIENT) (log ClearCompleted st)"] lt
  show ?case
    by (simp add: rounds_loop.simps[of env len transfers n_runs False i st] round_read)
qed

lemma create_loop_ok:
  assumes ok: "\<And>h c. hip_returns env h c = hipSuccess"
  shows "\<exists>st'. create_loop env i st = Inr st'"
proof (induction "NUM_GPUS - i" arbitrary: i st)
  case 0
  then show ?case
    by (simp add: create_loop.simps[of env i st])
next
  case (Suc m)
  then have lt: "i < NUM_GPUS"
    by simp
  obtain r1 st1 where c1: "call_hip env (hipSetDevice i) st = (r1, st1)"
    by force
  obtain r2 st2 where c2: "call_hip env (hipStreamCreate i) st1 = (r2, st2)"
    by force
  obtain r3 st3 where c3: "call_hip env (hipEventCreate i) st2 = (r3, st3)"
    by force
  have r: "r1 = hipSuccess" "r2 = hipSuccess" "r3 = hipSuccess"
    using call_hip_returns[OF c1] call_hip_returns[OF c2] call_hip_returns[OF c3] ok
    by simp_all
  have "m = NUM_GPUS - Suc i"
    using Suc.hyps(2) by simp
  from Suc.hyps(1)[OF this, of st3] show ?case
    using lt c1 c2 c3 r by (simp add: create_loop.simps[of env i st])
qed

text \<open>
  What an invocation of \<^verbatim>\<open>run_bench\<close> adds to the trace: its own mark, no other
  invocation, and, when it returns normally, exactly \<open>n_runs\<close> rounds.
\<close>

lemma run_bench_trace:
  assumes "run_bench env len transfers n_runs operation st = Some r"
  shows "\<exists>tr. trace_of r = trace st @ Enter_run_bench len transfers n_runs operation # tr \<and>
           invocations tr = [] \<and> (\<not> isl r \<longrightarrow> rounds tr = unat n_runs)"
proof -
  let ?st1 = "fill_loop len operation 0 (log (Enter_run_bench len transfers n_runs operation) st)"
  have t1: "trace ?st1 = trace st @ [Enter_run_bench len transfers n_runs operation]"
    by simp
  obtain tc where tc: "trace_of (create_loop env 0 ?st1) = trace ?st1 @ tc"
    "\<forall>e\<in>set tc. is_hip e \<and> copy_of e = []"
    using create_loop_trace[of env 0 ?st1] by blast
  then have tc_plain: "invocations tc = []" "rounds tc = 0"
    using hip_list_plain[of tc] by auto
  show ?thesis
  proof (cases "create_loop env 0 ?st1")
    case (Inl e)
    with assms have "r = Inl e"
      by (simp add: run_bench_def Let_def)
    with Inl tc(1) t1 tc_plain show ?thesis
      by (intro exI[of _ tc]) auto
  next
    case (Inr st2)
    with assms obtain r2 where
      r2: "rounds_loop env len transfers n_runs operation 0 st2 = Some r2"
      and r: "r = (case r2 of Inl e \<Rightarrow> Inl e | Inr st3 \<Rightarrow> Inr (destroy_loop env 0 st3))"
      by (auto simp: run_bench_def Let_def split: option.splits sum.splits)
    from rounds_loop_trace[OF r2] obtain tr2 where
      tr2: "trace_of r2 = trace st2 @ tr2" "invocations tr2 = []"
        "\<not> isl r2 \<longrightarrow> rounds tr2 = unat n_runs - 0"
      by blast
    have t2: "trace st2 = trace st @ Enter_run_bench len transfers n_runs operation # tc"
      using tc(1) Inr t1 by simp
    show ?thesis
    proof (cases r2)
      case (Inl e)
      with r have "r = Inl e"
        by simp
      with Inl tr2 t2 tc_plain show ?thesis
        by (intro exI[of _ "tc @ tr2"]) auto
    next
      case (Inr st3)
      obtain td where td: "trace (destroy_loop env 0 st3) = trace st3 @ td"
        "\<forall>e\<in>set td. is_hip e \<and> copy_of e = []"
        using destroy_loop_trace[of env 0 st3] by blast
      then have td_plain: "invocations td = []" "rounds td = 0"
        using hip_list_plain[of td] by auto
      from Inr r have "r = Inr (destroy_loop env 0 st3)"
        by simp
      with Inr tr2 t2 td tc_plain td_plain show ?thesis
        by (intro exI[of _ "tc @ tr2 @ td"]) auto
    qed
  qed
qed

lemma run_bench_read_returns:
  "run_bench env len transfers n_runs False st \<noteq> None"
proof -
  let ?st1 = "fill_loop len False 0 (log (Enter_run_bench len transfers n_runs False) st)"
  show ?thesis
  proof (cases "create_loop env 0 ?st1")
    case (Inl e)
    then show ?thesis
      by (simp add: run_bench_def Let_def)
  next
    case (Inr st2)
    obtain r2 where "rounds_loop env len transfers n_runs False 0 st2 = Some r2"
      using rounds_loop_read_returns[of env len transfers n_runs 0 st2] by auto
    with Inr show ?thesis
      by (simp add: run_bench_def Let_def split: sum.splits)
  qed
qed

lemma run_bench_read_ok:
  assumes "\<And>h c. hip_returns env h c = hipSuccess" and "unat n_runs \<le> INT_MAX"
  shows "\<exists>st'. run_bench env len transfers n_runs False st = Some (Inr st')"
proof -
  let ?st1 = "fill_loop len False 0 (log (Enter_run_bench len transfers n_runs False) st)"
  obtain st2 where "create_loop env 0 ?st1 = Inr st2"
    using create_loop_ok[of env 0 ?st1] assms(1) by blast
  moreover obtain st3 where "rounds_loop env len transfers n_runs False 0 st2 = Some (Inr st3)"
    using rounds_loop_read[OF assms(2)] by blast
  ultimately show ?thesis
    by (simp add: run_bench_def Let_def)
qed

section \<open>The sweep of the scatter server\<close>

lemma unat_double:
  fixes curr_size :: u32
  assumes "unat curr_size < 2 ^ 31"
  shows "unat (curr_size * 2) = 2 * unat curr_size"
  using assms by (simp add: unat_word_ariths)

lemma map_upt_Suc_shift: "map f [0..<Suc n] = f 0 # map (\<lambda>k. f (Suc k)) [0..<n]"
  by (rule map_upt_Suc)

lemma sweep_invocations_aux:
  "sweep env N n_runs operation max_size curr_size st = Some r \<Longrightarrow>
   unat max_size < 2 ^ 31 \<longrightarrow> 0 < curr_size \<longrightarrow>
   (\<forall>st'. r = Inr st' \<longrightarrow>
     (\<exists>n. invocations (trace st') =
            invocations (trace st) @
            map (\<lambda>k. Enter_run_bench (curr_size * 2 ^ k) N (n_runs + 10) operation) [0..<n] \<and>
          (\<forall>k<n. unat curr_size * 2 ^ k \<le> unat max_size) \<and>
          unat max_size < unat curr_size * 2 ^ n \<and>
          rounds (trace st') = rounds (trace st) + n * unat (n_runs + 10)))"
proof (induction rule: sweep.raw_induct[rotated 1, consumes 1])
  case (1 sweep' env N n_runs operation max_size curr_size st r)
  show ?case
  proof (intro impI allI)
    fix st'
    assume small: "unat max_size < 2 ^ 31" and pos: "0 < curr_size" and r: "r = Inr st'"
    show "\<exists>n. invocations (trace st') =
            invocations (trace st) @
            map (\<lambda>k. Enter_run_bench (curr_size * 2 ^ k) N (n_runs + 10) operation) [0..<n] \<and>
          (\<forall>k<n. unat curr_size * 2 ^ k \<le> unat max_size) \<and>
          unat max_size < unat curr_size * 2 ^ n \<and>
          rounds (trace st') = rounds (trace st) + n * unat (n_runs + 10)"
    proof (cases "curr_size \<le> max_size")
      case False
      with 1(2) r have "st' = st"
        by simp
      moreover from False have "unat max_size < unat curr_size"
        by (simp add: word_le_nat_alt)
      ultimately show ?thesis
        by (intro exI[of _ 0]) simp
    next
      case True
      then have le: "unat curr_size \<le> unat max_size"
        by (simp add: word_le_nat_alt)
      with small have dbl: "unat (curr_size * 2) = 2 * unat curr_size"
        by (intro unat_double) simp
      from pos have "0 < unat curr_size"
        by (simp add: word_greater_zero_iff unat_gt_0)
      with dbl have pos2: "0 < curr_size * 2"
        by (simp add: word_greater_zero_iff unat_gt_0 flip: unat_gt_0)
      from 1(2) True r obtain st1 where
        rb: "run_bench env curr_size N (n_runs + 10) operation st = Some (Inr st1)"
        and rest: "sweep' env N n_runs operation max_size (curr_size * 2) st1 = Some r"
        by (auto split: option.splits sum.splits)
      from run_bench_trace[OF rb] obtain tr where
        tr: "trace st1 = trace st @ Enter_run_bench curr_size N (n_runs + 10) operation # tr"
          "invocations tr = []" "rounds tr = unat (n_runs + 10)"
        by auto
      from 1(1)[OF rest] small pos2 r obtain n where
        n: "invocations (trace st') =
              invocations (trace st1) @
              map (\<lambda>k. Enter_run_bench (curr_size * 2 * 2 ^ k) N (n_runs + 10) operation) [0..<n]"
          "\<forall>k<n. unat (curr_size * 2) * 2 ^ k \<le> unat max_size"
          "unat max_size < unat (curr_size * 2) * 2 ^ n"
          "rounds (trace st') = rounds (trace st1) + n * unat (n_runs + 10)"
        by blast
      have shift: "map (\<lambda>k. Enter_run_bench (curr_size * 2 ^ k) N (n_runs + 10) operation) [0..<Suc n] =
          Enter_run_bench curr_size N (n_runs + 10) operation #
          map (\<lambda>k. Enter_run_bench (curr_size * 2 * 2 ^ k) N (n_runs + 10) operation) [0..<n]"
        by (simp only: map_upt_Suc_shift) (simp add: mult.assoc)
      have a: "invocations (trace st') =
            invocations (trace st) @
            map (\<lambda>k. Enter_run_bench (curr_size * 2 ^ k) N (n_runs + 10) operation) [0..<Suc n]"
        unfolding shift using n(1) tr by simp
      have b: "\<forall>k<Suc n. unat curr_size * 2 ^ k \<le> unat max_size"
      proof (intro allI impI)
        fix k
        assume "k < Suc n"
        show "unat curr_size * 2 ^ k \<le> unat max_size"
        proof (cases k)
          case 0
          with le show ?thesis by simp
        next
          case (Suc k')
          with \<open>k < Suc n\<close> have "k' < n" by simp
          with n(2) have "unat (curr_size * 2) * 2 ^ k' \<le> unat max_size" by simp
          with dbl Suc show ?thesis by (simp add: ac_simps)
        qed
      qed
      have c: "unat max_size < unat curr_size * 2 ^ Suc n"
        using n(3) dbl by (simp add: ac_simps)
      have d: "rounds (trace st') = rounds (trace st) + Suc n * unat (n_runs + 10)"
        using n(4) tr by simp
      from a b c d show ?thesis
        by blast
    qed
  qed
qed

lemma sweep_invocations:
  assumes "sweep env N n_runs operation max_size curr_size st = Some (Inr st')"
    and "unat max_size < 2 ^ 31" and "0 < curr_size"
  shows "\<exists>n. invocations (trace st') =
            invocations (trace st) @
            map (\<lambda>k. Enter_run_bench (curr_size * 2 ^ k) N (n_runs + 10) operation) [0..<n] \<and>
          (\<forall>k<n. unat curr_size * 2 ^ k \<le> unat max_size) \<and>
          unat max_size < unat curr_size * 2 ^ n \<and>
          rounds (trace st') = rounds (trace st) + n * unat (n_runs + 10)"
  using sweep_invocations_aux[OF assms(1)] assms(2,3) by blast

lemma sweep_past_max:
  assumes "max_size < curr_size"
  shows "sweep env N n_runs operation max_size curr_size st = Some (Inr st)"
proof -
  from assms have "\<not> curr_size \<le> max_size"
    by simp
  then show ?thesis
    by (subst sweep.simps) simp
qed

lemma sweep_returns:
  assumes ret: "\<And>len s. run_bench env len N (n_runs + 10) operation s \<noteq> None"
    and small: "unat max_size < 2 ^ 31"
  shows "0 < curr_size \<Longrightarrow> \<exists>r. sweep env N n_runs operation max_size curr_size st = Some r"
proof (induction "Suc (unat max_size) - unat curr_size" arbitrary: curr_size st rule: less_induct)
  case less
  show ?case
  proof (cases "curr_size \<le> max_size")
    case False
    then show ?thesis
      by (simp add: sweep_past_max)
  next
    case True
    then have le: "unat curr_size \<le> unat max_size"
      by (simp add: word_le_nat_alt)
    with small have dbl: "unat (curr_size * 2) = 2 * unat curr_size"
      by (intro unat_double) simp
    from less.prems have p: "0 < unat curr_size"
      by (simp add: word_greater_zero_iff unat_gt_0)
    with dbl have pos2: "0 < curr_size * 2"
      by (simp add: word_greater_zero_iff unat_gt_0 flip: unat_gt_0)
    from ret[of curr_size st] obtain r1 where
      r1: "run_bench env curr_size N (n_runs + 10) operation st = Some r1"
      by auto
    show ?thesis
    proof (cases r1)
      case (Inl e)
      with r1 True show ?thesis
        by (subst sweep.simps) simp
    next
      case (Inr st1)
      have "Suc (unat max_size) - unat (curr_size * 2) < Suc (unat max_size) - unat curr_size"
        using dbl p le by simp
      from less.hyps[OF this pos2, of st1] obtain r where
        "sweep env N n_runs operation max_size (curr_size * 2) st1 = Some r"
        by blast
      with r1 Inr True show ?thesis
        by (subst sweep.simps) simp
    qed
  qed
qed

text \<open>From \<open>curr_size = 0\<close> the sweep never leaves its loop: it can only end by an exception.\<close>

lemma sweep_zero_aux:
  "sweep env N n_runs operation max_size curr_size st = Some r \<Longrightarrow> curr_size = 0 \<longrightarrow> isl r"
proof (induction rule: sweep.raw_induct[rotated 1, consumes 1])
  case (1 sweep' env N n_runs operation max_size curr_size st r)
  show ?case
  proof
    assume z: "curr_size = 0"
    with 1(2) obtain r1 where
      r1: "run_bench env 0 N (n_runs + 10) operation st = Some r1"
      by (auto split: option.splits)
    show "isl r"
    proof (cases r1)
      case (Inl e)
      with 1(2) z r1 show ?thesis
        by auto
    next
      case (Inr st1)
      with 1(2) z r1 have "sweep' env N n_runs operation max_size 0 st1 = Some r"
        by simp
      from 1(1)[OF this] show ?thesis
        by simp
    qed
  qed
qed

lemma sweep_zero:
  "sweep env N n_runs operation max_size 0 st = Some r \<Longrightarrow> isl r"
  using sweep_zero_aux by blast

text \<open>An exception of the sweep is an exception of some invocation of \<^verbatim>\<open>run_bench\<close>.\<close>

lemma sweep_error_aux:
  "sweep env N n_runs operation max_size curr_size st = Some r \<Longrightarrow>
   (\<forall>len s e. run_bench env len N (n_runs + 10) operation s \<noteq> Some (Inl e)) \<longrightarrow> \<not> isl r"
proof (induction rule: sweep.raw_induct[rotated 1, consumes 1])
  case (1 sweep' env N n_runs operation max_size curr_size st r)
  show ?case
  proof
    assume ok: "\<forall>len s e. run_bench env len N (n_runs + 10) operation s \<noteq> Some (Inl e)"
    show "\<not> isl r"
    proof (cases "curr_size \<le> max_size")
      case False
      with 1(2) show ?thesis
        by auto
    next
      case True
      with 1(2) obtain r1 where
        r1: "run_bench env curr_size N (n_runs + 10) operation st = Some r1"
        by (auto split: option.splits)
      with ok obtain st1 where "r1 = Inr st1"
        by (cases r1) auto
      with 1(2) True r1 have "sweep' env N n_runs operation max_size (curr_size * 2) st1 = Some r"
        by simp
      from 1(1)[OF this] ok show ?thesis
        by simp
    qed
  qed
qed

lemma sweep_trace_aux:
  "sweep env N n_runs operation max_size curr_size st = Some r \<Longrightarrow>
   (\<exists>tr. trace_of r = trace st @ tr \<and>
      (\<forall>e\<in>set (invocations tr).
         \<exists>len. e = Enter_run_bench len N (n_runs + 10) operation))"
proof (induction rule: sweep.raw_induct[rotated 1, consumes 1])
  case (1 sweep' env N n_runs operation max_size curr_size st r)
  show ?case
  proof (cases "curr_size \<le> max_size")
    case False
    with 1(2) have "trace_of r = trace st @ []"
      by auto
    then show ?thesis
      by (intro exI[of _ "[]"]) simp
  next
    case True
    with 1(2) obtain r1 where
      r1: "run_bench env curr_size N (n_runs + 10) operation st = Some r1"
      by (auto split: option.splits)
    from run_bench_trace[OF r1] obtain tr1 where
      tr1: "trace_of r1 = trace st @ Enter_run_bench curr_size N (n_runs + 10) operation # tr1"
        "invocations tr1 = []"
      by blast
    show ?thesis
    proof (cases r1)
      case (Inl e)
      with 1(2) True r1 have "r = r1"
        by simp
      with tr1 show ?thesis
        by (intro exI[of _ "Enter_run_bench curr_size N (n_runs + 10) operation # tr1"]) simp
    next
      case (Inr st1)
      with 1(2) True r1 have "sweep' env N n_runs operation max_size (curr_size * 2) st1 = Some r"
        by simp
      from 1(1)[OF this] obtain tr where
        tr: "trace_of r = trace st1 @ tr"
          "\<forall>e\<in>set (invocations tr). \<exists>len. e = Enter_run_bench len N (n_runs + 10) operation"
        by blast
      from tr1 Inr tr show ?thesis
        by (intro exI[of _ "Enter_run_bench curr_size N (n_runs + 10) operation # tr1 @ tr"])
          auto
    qed
  qed
qed

section \<open>\<^verbatim>\<open>main\<close> of the scatter server\<close>

lemma get_mem_trace:
  "get_mem env nbytes gpu st = (ok, st') \<Longrightarrow>
   trace st' = trace st @ [GetMem nbytes gpu ok] \<and> ok = getMem_ok env (trace st) gpu"
  by (auto simp: get_mem_def Let_def)

lemma allocate_buffers_trace:
  "\<exists>tr. trace_of (allocate_buffers env max_size st) = trace st @ tr \<and>
        (\<forall>e\<in>set tr. \<not> is_enter e \<and> e \<noteq> ClearCompleted)"
proof -
  let ?st1 = "log (InitRDMA max_size (initRDMA_ok env)) st"
  obtain r1 st2 where c1: "call_hip env (hipSetDevice 0) ?st1 = (r1, st2)"
    by force
  obtain v1 st3 where g1: "get_mem env max_size 0 st2 = (v1, st3)"
    by force
  obtain v2 st4 where g2: "get_mem env max_size 1 st3 = (v2, st4)"
    by force
  obtain v3 st5 where g3: "get_mem env max_size 2 st4 = (v3, st5)"
    by force
  obtain v4 st6 where g4: "get_mem env max_size 3 st5 = (v4, st6)"
    by force
  obtain r2 st7 where c2: "call_hip env (hipSetDevice 0) st6 = (r2, st7)"
    by force
  note facts = call_hip_trace[OF c1] call_hip_trace[OF c2] get_mem_trace[OF g1]
    get_mem_trace[OF g2] get_mem_trace[OF g3] get_mem_trace[OF g4]
  show ?thesis
    unfolding allocate_buffers_def Let_def c1 g1 g2 g3 g4 c2 prod.case
    using facts by (simp split: if_splits)
qed

lemma allocate_buffers_ok:
  assumes "initRDMA_ok env" "\<And>h g. getMem_ok env h g"
    "\<And>h d. hip_returns env h (hipSetDevice d) = hipSuccess"
  shows "\<exists>st'. allocate_buffers env max_size st = Inr st'"
proof -
  let ?st1 = "log (InitRDMA max_size (initRDMA_ok env)) st"
  obtain r1 st2 where c1: "call_hip env (hipSetDevice 0) ?st1 = (r1, st2)"
    by force
  obtain v1 st3 where g1: "get_mem env max_size 0 st2 = (v1, st3)"
    by force
  obtain v2 st4 where g2: "get_mem env max_size 1 st3 = (v2, st4)"
    by force
  obtain v3 st5 where g3: "get_mem env max_size 2 st4 = (v3, st5)"
    by force
  obtain v4 st6 where g4: "get_mem env max_size 3 st5 = (v4, st6)"
    by force
  obtain r2 st7 where c2: "call_hip env (hipSetDevice 0) st6 = (r2, st7)"
    by force
  have "r1 = hipSuccess" "r2 = hipSuccess" "v1" "v2" "v3" "v4"
    using call_hip_returns[OF c1] call_hip_returns[OF c2] get_mem_trace[OF g1]
      get_mem_trace[OF g2] get_mem_trace[OF g3] get_mem_trace[OF g4] assms
    by simp_all
  then show ?thesis
    unfolding allocate_buffers_def Let_def c1 g1 g2 g3 g4 c2 prod.case
    using assms(1) by simp
qed

lemma final_sync_and_exit_trace:
  "\<exists>tr. trace_of_main (final_sync_and_exit env st) = trace st @ tr \<and>
        (\<forall>e\<in>set tr. \<not> is_enter e \<and> e \<noteq> ClearCompleted)"
proof -
  have step: "\<exists>tr. trace_of (free_on env g s) = trace s @ tr \<and>
      (\<forall>e\<in>set tr. \<not> is_enter e \<and> e \<noteq> ClearCompleted)" for g s
    using free_on_trace[of env g s] hip_plain by blast
  obtain t0 where t0: "trace_of (free_on env 0 st) = trace st @ t0"
    "\<forall>e\<in>set t0. \<not> is_enter e \<and> e \<noteq> ClearCompleted"
    using step by blast
  show ?thesis
  proof (cases "free_on env 0 st")
    case (Inl e)
    with t0 show ?thesis
      by (cases e) (auto simp: final_sync_and_exit_def)
  next
    case (Inr st1)
    note i1 = Inr
    obtain t1 where t1: "trace_of (free_on env 1 st1) = trace st1 @ t1"
      "\<forall>e\<in>set t1. \<not> is_enter e \<and> e \<noteq> ClearCompleted"
      using step by blast
    show ?thesis
    proof (cases "free_on env 1 st1")
      case (Inl e)
      with t0 t1 i1 show ?thesis
        by (cases e) (auto simp: final_sync_and_exit_def)
    next
      case (Inr st2)
      note i2 = Inr
      obtain t2 where t2: "trace_of (free_on env 2 st2) = trace st2 @ t2"
        "\<forall>e\<in>set t2. \<not> is_enter e \<and> e \<noteq> ClearCompleted"
        using step by blast
      show ?thesis
      proof (cases "free_on env 2 st2")
        case (Inl e)
        with t0 t1 t2 i1 i2 show ?thesis
          by (cases e) (auto simp: final_sync_and_exit_def)
      next
        case (Inr st3)
        note i3 = Inr
        obtain t3 where t3: "trace_of (free_on env 3 st3) = trace st3 @ t3"
          "\<forall>e\<in>set t3. \<not> is_enter e \<and> e \<noteq> ClearCompleted"
          using step by blast
        show ?thesis
        proof (cases "free_on env 3 st3")
          case (Inl e)
          with t0 t1 t2 t3 i1 i2 i3 show ?thesis
            by (cases e) (auto simp: final_sync_and_exit_def)
        next
          case (Inr st4)
          with t0 t1 t2 t3 i1 i2 i3 show ?thesis
            by (auto simp: final_sync_and_exit_def)
        qed
      qed
    qed
  qed
qed

lemma final_sync_and_exit_ok:
  assumes "\<And>h d. hip_returns env h (hipSetDevice d) = hipSuccess"
  shows "\<exists>st'. final_sync_and_exit env st = Inr (EXIT_SUCCESS, st') \<and>
               last (trace st') = ConnSync IS_CLIENT"
proof -
  obtain st1 where s1: "free_on env 0 st = Inr st1"
    using free_on_ok[OF assms] by blast
  obtain st2 where s2: "free_on env 1 st1 = Inr st2"
    using free_on_ok[OF assms] by blast
  obtain st3 where s3: "free_on env 2 st2 = Inr st3"
    using free_on_ok[OF assms] by blast
  obtain st4 where s4: "free_on env 3 st3 = Inr st4"
    using free_on_ok[OF assms] by blast
  show ?thesis
    unfolding final_sync_and_exit_def s1 s2 s3 s4 sum.case
    by simp
qed

lemma plain_list:
  assumes "\<forall>e\<in>set tr. \<not> is_enter e \<and> e \<noteq> ClearCompleted"
  shows "invocations tr = []" "rounds tr = 0"
  using assms by (auto intro!: invocations_none rounds_none)

lemma env_ok_fields [simp]:
  "initRDMA_ok env_ok" "getMem_ok env_ok h g" "checkCompleted_returns env_ok h = 1"
  by (simp_all add: env_ok_def)

text \<open>The shape of every run of \<^verbatim>\<open>main\<close> that ends.\<close>

lemma main_cases:
  assumes "main env N operation n_runs min_size max_size st = Some r"
  obtains (alloc_failed) e s tr where "r = Inl (e, s)" "trace s = trace st @ tr"
      "invocations tr = []" "rounds tr = 0"
  | (sweep_failed) st1 tr1 e s where "allocate_buffers env max_size st = Inr st1"
      "trace st1 = trace st @ tr1" "invocations tr1 = []" "rounds tr1 = 0"
      "sweep env N n_runs operation max_size min_size st1 = Some (Inl (e, s))" "r = Inl (e, s)"
  | (swept) st1 tr1 st2 tr2 where "allocate_buffers env max_size st = Inr st1"
      "trace st1 = trace st @ tr1" "invocations tr1 = []" "rounds tr1 = 0"
      "sweep env N n_runs operation max_size min_size st1 = Some (Inr st2)"
      "r = final_sync_and_exit env st2" "trace_of_main r = trace st2 @ tr2"
      "invocations tr2 = []" "rounds tr2 = 0"
proof -
  obtain tr1 where tr1: "trace_of (allocate_buffers env max_size st) = trace st @ tr1"
    "\<forall>e\<in>set tr1. \<not> is_enter e \<and> e \<noteq> ClearCompleted"
    using allocate_buffers_trace[of env max_size st] by blast
  note p1 = plain_list[OF tr1(2)]
  show ?thesis
  proof (cases "allocate_buffers env max_size st")
    case (Inl a)
    obtain e s where a: "a = (e, s)"
      by (cases a)
    with Inl assms have "r = Inl (e, s)"
      by (simp add: main_def)
    moreover from Inl a tr1 have "trace s = trace st @ tr1"
      by simp
    ultimately show ?thesis
      using p1 by (rule alloc_failed)
  next
    case (Inr st1)
    with tr1 have t1: "trace st1 = trace st @ tr1"
      by simp
    from Inr assms obtain rs where
      rs: "sweep env N n_runs operation max_size min_size st1 = Some rs"
      by (auto simp: main_def split: option.splits)
    show ?thesis
    proof (cases rs)
      case (Inl a)
      obtain e s where a: "a = (e, s)"
        by (cases a)
      with Inl Inr rs assms have "r = Inl (e, s)"
        by (simp add: main_def)
      with Inr t1 p1 rs Inl a show ?thesis
        by (intro sweep_failed[of st1 tr1 e s]) simp_all
    next
      case (Inr st2)
      with \<open>allocate_buffers env max_size st = Inr st1\<close> rs assms
      have r: "r = final_sync_and_exit env st2"
        by (simp add: main_def)
      obtain tr2 where tr2: "trace_of_main (final_sync_and_exit env st2) = trace st2 @ tr2"
        "\<forall>e\<in>set tr2. \<not> is_enter e \<and> e \<noteq> ClearCompleted"
        using final_sync_and_exit_trace[of env st2] by blast
      note p2 = plain_list[OF tr2(2)]
      from \<open>allocate_buffers env max_size st = Inr st1\<close> t1 p1 rs Inr r tr2(1) p2
      show ?thesis
        by (intro swept[of st1 tr1 st2 tr2]) simp_all
    qed
  qed
qed

lemma main_invocations:
  assumes run: "main env N operation n_runs min_size max_size st = Some (Inr (c, st'))"
    and small: "unat max_size < 2 ^ 31" and pos: "0 < min_size"
  shows "\<exists>n. invocations (trace st') =
            invocations (trace st) @
            map (\<lambda>k. Enter_run_bench (min_size * 2 ^ k) N (n_runs + 10) operation) [0..<n] \<and>
          (\<forall>k<n. unat min_size * 2 ^ k \<le> unat max_size) \<and>
          unat max_size < unat min_size * 2 ^ n \<and>
          rounds (trace st') = rounds (trace st) + n * unat (n_runs + 10)"
  using run
proof (cases rule: main_cases)
  case (swept st1 tr1 st2 tr2)
  from sweep_invocations[OF swept(5) small pos] obtain n where
    n: "invocations (trace st2) =
            invocations (trace st1) @
            map (\<lambda>k. Enter_run_bench (min_size * 2 ^ k) N (n_runs + 10) operation) [0..<n]"
      "\<forall>k<n. unat min_size * 2 ^ k \<le> unat max_size"
      "unat max_size < unat min_size * 2 ^ n"
      "rounds (trace st2) = rounds (trace st1) + n * unat (n_runs + 10)"
    by blast
  from swept(7) have "trace st' = trace st2 @ tr2"
    by simp
  with n swept(2,3,4,8,9) show ?thesis
    by (intro exI[of _ n]) simp
qed simp_all

lemma sweep_read_ok:
  assumes ok: "\<And>h c. hip_returns env h c = hipSuccess"
    and runs: "unat (n_runs + 10) \<le> INT_MAX"
    and range: "max_size < min_size \<or> (0 < min_size \<and> unat max_size < 2 ^ 31)"
  shows "\<exists>st'. sweep env N n_runs False max_size min_size st = Some (Inr st')"
proof -
  have ret: "run_bench env len N (n_runs + 10) False s \<noteq> None" for len s
    by (rule run_bench_read_returns)
  have no_err: "\<forall>len s e. run_bench env len N (n_runs + 10) False s \<noteq> Some (Inl e)"
    using run_bench_read_ok[OF ok runs] by (metis option.inject sum.distinct(1))
  from range obtain r where r: "sweep env N n_runs False max_size min_size st = Some r"
    using sweep_returns[OF ret, of max_size min_size st] sweep_past_max by blast
  from sweep_error_aux[OF r] no_err have "\<not> isl r"
    by blast
  with r show ?thesis
    by (cases r) auto
qed

lemma main_read_ok:
  assumes ok: "\<And>h c. hip_returns env h c = hipSuccess"
    and alloc: "initRDMA_ok env" "\<And>h g. getMem_ok env h g"
    and runs: "unat (n_runs + 10) \<le> INT_MAX"
    and range: "max_size < min_size \<or> (0 < min_size \<and> unat max_size < 2 ^ 31)"
  shows "\<exists>st'. main env N False n_runs min_size max_size st = Some (Inr (EXIT_SUCCESS, st'))"
proof -
  obtain st1 where s1: "allocate_buffers env max_size st = Inr st1"
    using allocate_buffers_ok[OF alloc ok] by blast
  obtain st2 where s2: "sweep env N n_runs False max_size min_size st1 = Some (Inr st2)"
    using sweep_read_ok[OF ok runs range] by blast
  obtain st3 where "final_sync_and_exit env st2 = Inr (EXIT_SUCCESS, st3)"
    using final_sync_and_exit_ok[OF ok] by blast
  with s1 s2 show ?thesis
    by (simp add: main_def)
qed

lemma doubling_count_unique:
  fixes m :: nat
  assumes "\<forall>k<n. m * 2 ^ k \<le> M" "M < m * 2 ^ n" "\<forall>k<n'. m * 2 ^ k \<le> M" "M < m * 2 ^ n'"
  shows "n = n'"
proof (rule ccontr)
  assume "n \<noteq> n'"
  then consider "n < n'" | "n' < n"
    by linarith
  then show False
  proof cases
    case 1
    with assms(3) have "m * 2 ^ n \<le> M" by simp
    with assms(2) show False by simp
  next
    case 2
    with assms(1) have "m * 2 ^ n' \<le> M" by simp
    with assms(4) show False by simp
  qed
qed

section \<open>The sweep: an inverted range\<close>

text \<open>
  Claim C9. With \<open>min_size > max_size\<close>, \<^verbatim>\<open>main\<close> always ends, \<^verbatim>\<open>run_bench\<close> is
  never invoked and no round is executed. The inverted range itself raises nothing: if
  the allocations and the device selections succeed, the process reaches the final
  sync with the client and returns \<^verbatim>\<open>EXIT_SUCCESS\<close>.
\<close>

theorem inverted_range_runs_nothing:
  assumes "max_size < min_size"
  shows "\<exists>r. main env N operation n_runs min_size max_size st = Some r \<and>
           invocations (trace_of_main r) = invocations (trace st) \<and>
           rounds (trace_of_main r) = rounds (trace st) \<and>
           (initRDMA_ok env \<and> (\<forall>h g. getMem_ok env h g) \<and>
            (\<forall>h d. hip_returns env h (hipSetDevice d) = hipSuccess) \<longrightarrow>
              (\<exists>st'. r = Inr (EXIT_SUCCESS, st') \<and> last (trace st') = ConnSync IS_CLIENT))"
proof -
  let ?ok = "initRDMA_ok env \<and> (\<forall>h g. getMem_ok env h g) \<and>
            (\<forall>h d. hip_returns env h (hipSetDevice d) = hipSuccess)"
  obtain tr1 where tr1: "trace_of (allocate_buffers env max_size st) = trace st @ tr1"
    "\<forall>e\<in>set tr1. \<not> is_enter e \<and> e \<noteq> ClearCompleted"
    using allocate_buffers_trace[of env max_size st] by blast
  note p1 = plain_list[OF tr1(2)]
  show ?thesis
  proof (cases "allocate_buffers env max_size st")
    case (Inl a)
    obtain e s where a: "a = (e, s)"
      by (cases a)
    have m: "main env N operation n_runs min_size max_size st = Some (Inl (e, s))"
      using Inl a by (simp add: main_def)
    have "\<not> ?ok"
    proof
      assume ok: ?ok
      then have "\<exists>st'. allocate_buffers env max_size st = Inr st'"
        by (intro allocate_buffers_ok) simp_all
      with Inl show False
        by simp
    qed
    with m Inl a tr1 p1 show ?thesis
      by (intro exI[of _ "Inl (e, s)"]) auto
  next
    case (Inr st1)
    have sw: "sweep env N n_runs operation max_size min_size st1 = Some (Inr st1)"
      using assms by (rule sweep_past_max)
    have m: "main env N operation n_runs min_size max_size st =
        Some (final_sync_and_exit env st1)"
      using Inr sw by (simp add: main_def)
    obtain tr2 where tr2: "trace_of_main (final_sync_and_exit env st1) = trace st1 @ tr2"
      "\<forall>e\<in>set tr2. \<not> is_enter e \<and> e \<noteq> ClearCompleted"
      using final_sync_and_exit_trace[of env st1] by blast
    note p2 = plain_list[OF tr2(2)]
    have t: "trace_of_main (final_sync_and_exit env st1) = trace st @ tr1 @ tr2"
      using tr1(1) tr2(1) Inr by simp
    have fin: "?ok \<longrightarrow> (\<exists>st'. final_sync_and_exit env st1 = Inr (EXIT_SUCCESS, st') \<and>
        last (trace st') = ConnSync IS_CLIENT)"
      using final_sync_and_exit_ok[of env st1] by blast
    show ?thesis
      apply (rule exI[of _ "final_sync_and_exit env st1"])
      apply (intro conjI)
         apply (rule m)
        apply (simp add: t p1 p2)
       apply (simp add: t p1 p2)
      apply (rule fin)
      done
  qed
qed

text \<open>
  The spec's scenario: \<open>min_size = 1024\<close>, \<open>max_size = 512\<close>, in write mode, in an
  environment where everything succeeds.
\<close>

theorem inverted_range_runs_nothing_witness:
  "\<exists>st'. main env_ok 1 True 10 1024 512 st_init = Some (Inr (EXIT_SUCCESS, st')) \<and>
         invocations (trace st') = [] \<and> rounds (trace st') = 0 \<and>
         last (trace st') = ConnSync False"
proof -
  have lt: "(512 :: u32) < 1024"
    by simp
  from inverted_range_runs_nothing[OF lt, of env_ok 1 True 10 st_init] obtain r st' where
    "main env_ok 1 True 10 1024 512 st_init = Some r"
    "invocations (trace_of_main r) = invocations (trace st_init)"
    "rounds (trace_of_main r) = rounds (trace st_init)"
    "r = Inr (EXIT_SUCCESS, st')" "last (trace st') = ConnSync IS_CLIENT"
    by auto
  then show ?thesis
    by (intro exI[of _ st']) (simp add: st_init_def IS_CLIENT_def)
qed

section \<open>The number of rounds per invocation\<close>

text \<open>
  Claim C7, as amended. The sweep passes \<open>n_runs + 10\<close> (an \<^verbatim>\<open>unsigned int\<close> sum, so
  modulo \<open>2 ^ 32\<close>) as the repetition count of every invocation of \<^verbatim>\<open>run_bench\<close>, where
  \<open>n_runs\<close> is the value of \<^verbatim>\<open>--runs\<close>; and an invocation that returns has executed exactly
  as many rounds as its repetition count.
\<close>

theorem rounds_per_invocation:
  "(main env N operation n_runs min_size max_size st = Some r \<longrightarrow>
      (\<exists>tr. trace_of_main r = trace st @ tr \<and>
         (\<forall>e\<in>set (invocations tr).
            \<exists>len. e = Enter_run_bench len N (n_runs + 10) operation))) \<and>
   (run_bench env len N (n_runs + 10) operation st = Some (Inr st') \<longrightarrow>
      rounds (trace st') = rounds (trace st) + unat (n_runs + 10)) \<and>
   unat (n_runs + 10) = (unat n_runs + 10) mod 2 ^ 32"
proof (intro conjI impI)
  assume run: "main env N operation n_runs min_size max_size st = Some r"
  then show "\<exists>tr. trace_of_main r = trace st @ tr \<and>
         (\<forall>e\<in>set (invocations tr). \<exists>len. e = Enter_run_bench len N (n_runs + 10) operation)"
  proof (cases rule: main_cases)
    case (alloc_failed e s tr)
    then show ?thesis
      by (intro exI[of _ tr]) simp
  next
    case (sweep_failed st1 tr1 e s)
    from sweep_trace_aux[OF sweep_failed(5)] obtain tr where
      "trace s = trace st1 @ tr"
      "\<forall>e\<in>set (invocations tr). \<exists>len. e = Enter_run_bench len N (n_runs + 10) operation"
      by auto
    with sweep_failed show ?thesis
      by (intro exI[of _ "tr1 @ tr"]) simp
  next
    case (swept st1 tr1 st2 tr2)
    from sweep_trace_aux[OF swept(5)] obtain tr where
      "trace st2 = trace st1 @ tr"
      "\<forall>e\<in>set (invocations tr). \<exists>len. e = Enter_run_bench len N (n_runs + 10) operation"
      by auto
    with swept show ?thesis
      by (intro exI[of _ "tr1 @ tr @ tr2"]) simp
  qed
next
  assume "run_bench env len N (n_runs + 10) operation st = Some (Inr st')"
  from run_bench_trace[OF this] show "rounds (trace st') = rounds (trace st) + unat (n_runs + 10)"
    by auto
next
  show "unat (n_runs + 10) = (unat n_runs + 10) mod 2 ^ 32"
    by (simp add: unat_word_ariths)
qed

text \<open>With \<^verbatim>\<open>--runs 1\<close> an invocation in read mode executes eleven rounds.\<close>

theorem rounds_per_invocation_witness:
  "\<exists>st'. run_bench env_ok 64 1 (1 + 10) False st_init = Some (Inr st') \<and>
         rounds (trace st') = 11"
proof -
  have "unat ((1 :: u32) + 10) \<le> INT_MAX"
    by (simp add: INT_MAX_def)
  with run_bench_read_ok[of env_ok "1 + 10" 64 1 st_init] obtain st' where
    run: "run_bench env_ok 64 1 (1 + 10) False st_init = Some (Inr st')"
    by auto
  from rounds_per_invocation[of env_ok 1 False 1 _ _ st_init _ 64 st'] run
  have "rounds (trace st') = rounds (trace st_init) + unat ((1 :: u32) + 10)"
    by blast
  with run show ?thesis
    by (intro exI[of _ st']) (simp add: st_init_def)
qed

text \<open>
  Claim C7 as stated fails for \<^verbatim>\<open>--runs 1\<close>: the one invocation of the sweep from 64 to
  64 executes eleven rounds, not one.
\<close>

theorem rounds_per_invocation_counterexample:
  "map_option (rounds \<circ> trace_of_main) (main env_ok 1 False 1 64 64 st_init) = Some 11 \<and>
   map_option (length \<circ> invocations \<circ> trace_of_main) (main env_ok 1 False 1 64 64 st_init) =
     Some 1 \<and>
   unat (1 :: u32) \<noteq> 11"
proof -
  have runs: "unat ((1 :: u32) + 10) \<le> INT_MAX"
    by (simp add: INT_MAX_def)
  have range: "(64 :: u32) < 64 \<or> (0 < (64 :: u32) \<and> unat (64 :: u32) < 2 ^ 31)"
    by simp
  from main_read_ok[of env_ok 1 64 64 1 st_init, OF _ _ _ runs range] obtain st' where
    run: "main env_ok 1 False 1 64 64 st_init = Some (Inr (EXIT_SUCCESS, st'))"
    by auto
  from main_invocations[OF run] obtain n where
    n: "invocations (trace st') =
            invocations (trace st_init) @
            map (\<lambda>k. Enter_run_bench (64 * 2 ^ k) 1 (1 + 10) False) [0..<n]"
      "\<forall>k<n. unat (64 :: u32) * 2 ^ k \<le> unat (64 :: u32)"
      "unat (64 :: u32) < unat (64 :: u32) * 2 ^ n"
      "rounds (trace st') = rounds (trace st_init) + n * unat ((1 :: u32) + 10)"
    by auto
  have "n = 1"
    by (rule doubling_count_unique[OF n(2,3)]) simp_all
  with n(1,4) have "rounds (trace st') = 11" "length (invocations (trace st')) = 1"
    by (simp_all add: st_init_def)
  with run show ?thesis
    by simp
qed

section \<open>Termination of the sweep\<close>

text \<open>
  Claim C8, as amended. If every invocation of \<^verbatim>\<open>run_bench\<close> returns, the sweep, and
  with it \<^verbatim>\<open>main\<close>, ends for every pair with \<open>min_size > max_size\<close>, and for every pair
  with \<open>0 < min_size\<close> and \<open>max_size < 2 ^ 31\<close>.
\<close>

theorem sweep_terminates:
  assumes "\<And>len s. run_bench env len N (n_runs + 10) operation s \<noteq> None"
    and "max_size < min_size \<or> (0 < min_size \<and> unat max_size < 2 ^ 31)"
  shows "(\<exists>r. sweep env N n_runs operation max_size min_size st = Some r) \<and>
         (\<exists>r. main env N operation n_runs min_size max_size st = Some r)"
proof -
  have sw: "\<exists>r. sweep env N n_runs operation max_size min_size s = Some r" for s
    using assms(2) sweep_returns[OF assms(1), of max_size min_size s] sweep_past_max
    by blast
  have "\<exists>r. main env N operation n_runs min_size max_size st = Some r"
  proof (cases "allocate_buffers env max_size st")
    case (Inl e)
    then show ?thesis
      by (simp add: main_def)
  next
    case (Inr st1)
    from sw[of st1] obtain rs where
      "sweep env N n_runs operation max_size min_size st1 = Some rs"
      by blast
    with Inr show ?thesis
      by (cases rs) (simp_all add: main_def)
  qed
  with sw show ?thesis
    by blast
qed

text \<open>In read mode every invocation returns; the sweep from 64 to 256 ends.\<close>

theorem sweep_terminates_witness:
  "(\<exists>r. sweep env_ok 1 0 False 256 64 st_init = Some r) \<and>
   (\<exists>r. main env_ok 1 False 0 64 256 st_init = Some r)"
proof -
  have range: "(256 :: u32) < 64 \<or> (0 < (64 :: u32) \<and> unat (256 :: u32) < 2 ^ 31)"
    by simp
  show ?thesis
    by (rule sweep_terminates[OF run_bench_read_returns range])
qed

text \<open>
  Claim C8 as stated fails. With \<open>min_size = 0\<close> the size stays 0 for ever; with
  \<open>min_size = max_size = 2 ^ 31\<close> the doubling wraps around to 0 and stays there. In an
  environment where every call succeeds, \<^verbatim>\<open>main\<close> never ends on either input.
\<close>

theorem sweep_terminates_counterexample:
  "main env_ok 1 False 0 0 0 st_init = None \<and>
   main env_ok 1 False 0 2147483648 2147483648 st_init = None"
proof -
  have runs: "unat ((0 :: u32) + 10) \<le> INT_MAX"
    by (simp add: INT_MAX_def)
  have no_err: "\<forall>len s e. run_bench env_ok len 1 (0 + 10) False s \<noteq> Some (Inl e)"
    using run_bench_read_ok[of env_ok "0 + 10", OF _ runs]
    by (metis env_ok_hip option.inject sum.distinct(1))
  have zero: "sweep env_ok 1 0 False max_size 0 s = None" for max_size s
  proof (rule ccontr)
    assume "sweep env_ok 1 0 False max_size 0 s \<noteq> None"
    then obtain r where r: "sweep env_ok 1 0 False max_size 0 s = Some r"
      by auto
    from sweep_zero[OF r] sweep_error_aux[OF r] no_err show False
      by blast
  qed
  have wrap: "sweep env_ok 1 0 False 2147483648 2147483648 s = None" for s
  proof -
    obtain s1 where r1: "run_bench env_ok 2147483648 1 (0 + 10) False s = Some (Inr s1)"
      using run_bench_read_ok[of env_ok "0 + 10" 2147483648 1 s, OF _ runs] by auto
    have eq0: "(2147483648 :: u32) * 2 = 0"
      by simp
    have "sweep env_ok 1 0 False 2147483648 2147483648 s =
          sweep env_ok 1 0 False 2147483648 (2147483648 * 2) s1"
      by (subst sweep.simps) (simp only: order_refl if_True r1 option.case sum.case)
    also have "\<dots> = None"
      by (simp only: eq0 zero)
    finally show ?thesis .
  qed
  obtain s0 where s0: "allocate_buffers env_ok 0 st_init = Inr s0"
    using allocate_buffers_ok[of env_ok 0 st_init] by auto
  obtain s1 where s1: "allocate_buffers env_ok 2147483648 st_init = Inr s1"
    using allocate_buffers_ok[of env_ok 2147483648 st_init] by auto
  show ?thesis
    by (simp add: main_def s0 s1 zero wrap)
qed

section \<open>The first listing\<close>

lemma round_v1_plain:
  assumes "run_bench_round_v1 env len transfers operation st = Some r"
  shows "\<exists>tr. trace_of r = trace st @ ClearCompleted # tr \<and> invocations tr = [] \<and> rounds tr = 0"
proof (cases operation)
  case False
  with assms have "trace_of r = trace st @ ClearCompleted # [ConnSync IS_CLIENT]"
    by (auto simp: run_bench_round_v1_def Let_def)
  then show ?thesis
    by (intro exI[of _ "[ConnSync IS_CLIENT]"]) simp
next
  case True
  let ?st2 = "log (ConnSync IS_CLIENT) (log ClearCompleted st)"
  from True assms obtain st3 where wait: "wait_completed env transfers ?st2 = Some st3"
    and r: "r = invoke_loop len transfers 0 st3"
    by (auto simp: run_bench_round_v1_def Let_def split: option.splits)
  from wait_completed_trace[OF wait] obtain polls where
    polls: "trace st3 = trace ?st2 @ polls @ [CheckCompleted transfers]"
      "\<forall>e\<in>set polls. is_poll e \<and> e \<noteq> CheckCompleted transfers"
    by blast
  obtain writes where w: "trace_of (invoke_loop len transfers 0 st3) = trace st3 @ writes"
    "\<forall>e\<in>set writes. e = Invoke_REMOTE_RDMA_WRITE len"
    using invoke_loop_trace[of len transfers 0 st3] by blast
  let ?tr = "ConnSync IS_CLIENT # polls @ [CheckCompleted transfers] @ writes"
  have "\<forall>e\<in>set ?tr. \<not> is_enter e \<and> e \<noteq> ClearCompleted"
    using polls(2) w(2) poll_plain by auto
  then have "invocations ?tr = []" "rounds ?tr = 0"
    by (rule plain_list)+
  moreover have "trace_of r = trace st @ ClearCompleted # ?tr"
    using r w(1) polls(1) by simp
  ultimately show ?thesis
    by blast
qed

lemma rounds_loop_v1_trace:
  "rounds_loop_v1 env len transfers n_runs operation i st = Some r \<Longrightarrow>
   \<exists>tr. trace_of r = trace st @ tr \<and> invocations tr = [] \<and>
        (\<not> isl r \<longrightarrow> rounds tr = unat n_runs - i)"
proof (induction "unat n_runs - i" arbitrary: i st)
  case 0
  then show ?case
    by (auto simp: rounds_loop_v1.simps[of env len transfers n_runs operation i st])
next
  case (Suc m)
  then have lt: "i < unat n_runs"
    by simp
  have m: "m = unat n_runs - Suc i"
    using Suc.hyps(2) by simp
  from Suc.prems lt obtain r1 where
    r1: "run_bench_round_v1 env len transfers operation st = Some r1"
    by (auto simp: rounds_loop_v1.simps[of env len transfers n_runs operation i st]
        split: option.splits)
  from round_v1_plain[OF r1] obtain tr1 where
    tr1: "trace_of r1 = trace st @ ClearCompleted # tr1" "invocations tr1 = []" "rounds tr1 = 0"
    by blast
  have eq: "Some r = (case r1 of Inl e \<Rightarrow> Some (Inl e)
       | Inr st1 \<Rightarrow> if i = INT_MAX then Some (Inl (Signed_int_overflow, st1))
                   else rounds_loop_v1 env len transfers n_runs operation (Suc i) st1)"
    using Suc.prems lt r1
    by (simp add: rounds_loop_v1.simps[of env len transfers n_runs operation i st])
  show ?case
  proof (cases r1)
    case (Inl e)
    with eq have "r = Inl e"
      by simp
    with Inl tr1 show ?thesis
      by (intro exI[of _ "ClearCompleted # tr1"]) auto
  next
    case (Inr st1)
    show ?thesis
    proof (cases "i = INT_MAX")
      case True
      with eq Inr have "r = Inl (Signed_int_overflow, st1)"
        by simp
      with Inr tr1 show ?thesis
        by (intro exI[of _ "ClearCompleted # tr1"]) auto
    next
      case False
      with eq Inr have
        rest: "rounds_loop_v1 env len transfers n_runs operation (Suc i) st1 = Some r"
        by simp
      from Suc.hyps(1)[OF m rest] obtain tr where
        tr: "trace_of r = trace st1 @ tr" "invocations tr = []"
          "\<not> isl r \<longrightarrow> rounds tr = unat n_runs - Suc i"
        by blast
      have "trace_of r = trace st @ (ClearCompleted # tr1 @ tr)"
        using tr(1) tr1(1) Inr by simp
      moreover have "invocations (ClearCompleted # tr1 @ tr) = []"
        using tr(2) tr1(2) by simp
      moreover have "\<not> isl r \<longrightarrow> rounds (ClearCompleted # tr1 @ tr) = unat n_runs - i"
        using tr(3) tr1(3) lt by auto
      ultimately show ?thesis
        by blast
    qed
  qed
qed

lemma rounds_loop_v1_read:
  assumes ok: "unat n_runs \<le> INT_MAX"
  shows "\<exists>st'. rounds_loop_v1 env len transfers n_runs False i st = Some (Inr st')"
proof (induction "unat n_runs - i" arbitrary: i st)
  case 0
  then show ?case
    by (auto simp: rounds_loop_v1.simps[of env len transfers n_runs False i st])
next
  case (Suc m)
  then have lt: "i < unat n_runs"
    by simp
  with ok have ne: "i \<noteq> INT_MAX"
    by simp
  have m: "m = unat n_runs - Suc i"
    using Suc.hyps(2) by simp
  from Suc.hyps(1)[OF m, of "log (ConnSync IS_CLIENT) (log ClearCompleted st)"] lt ne
  show ?case
    by (simp add: rounds_loop_v1.simps[of env len transfers n_runs False i st]
        run_bench_round_v1_def Let_def)
qed

lemma run_bench_v1_trace:
  assumes "run_bench_v1 env len transfers n_runs operation st = Some r"
  shows "\<exists>tr. trace_of r = trace st @ Enter_run_bench len transfers n_runs operation # tr \<and>
           invocations tr = [] \<and> (\<not> isl r \<longrightarrow> rounds tr = unat n_runs)"
proof -
  let ?st1 = "fill_loop len operation 0 (log (Enter_run_bench len transfers n_runs operation) st)"
  from assms have "rounds_loop_v1 env len transfers n_runs operation 0 ?st1 = Some r"
    by (simp add: run_bench_v1_def Let_def)
  from rounds_loop_v1_trace[OF this] show ?thesis
    by auto
qed

lemma run_bench_v1_read_ok:
  assumes "unat n_runs \<le> INT_MAX"
  shows "\<exists>st'. run_bench_v1 env len transfers n_runs False st = Some (Inr st')"
  using rounds_loop_v1_read[OF assms] by (simp add: run_bench_v1_def Let_def)

lemma sweep_v1_past_max:
  assumes "max_size < curr_size"
  shows "sweep_v1 env T N n_runs operation max_size curr_size st = Some (Inr st)"
proof -
  from assms have "\<not> curr_size \<le> max_size"
    by simp
  then show ?thesis
    by (subst sweep_v1.simps) simp
qed

lemma sweep_v1_invocations_aux:
  "sweep_v1 env T N n_runs operation max_size curr_size st = Some r \<Longrightarrow>
   unat max_size < 2 ^ 31 \<longrightarrow> 0 < curr_size \<longrightarrow>
   (\<forall>st'. r = Inr st' \<longrightarrow>
     (\<exists>n. invocations (trace st') =
            invocations (trace st) @
            concat (map (\<lambda>k. [Enter_run_bench (curr_size * 2 ^ k) T n_runs operation,
                             Enter_run_bench (curr_size * 2 ^ k) N n_runs operation]) [0..<n]) \<and>
          (\<forall>k<n. unat curr_size * 2 ^ k \<le> unat max_size) \<and>
          unat max_size < unat curr_size * 2 ^ n))"
proof (induction rule: sweep_v1.raw_induct[rotated 1, consumes 1])
  case (1 sweep' env T N n_runs operation max_size curr_size st r)
  show ?case
  proof (intro impI allI)
    fix st'
    assume small: "unat max_size < 2 ^ 31" and pos: "0 < curr_size" and r: "r = Inr st'"
    show "\<exists>n. invocations (trace st') =
            invocations (trace st) @
            concat (map (\<lambda>k. [Enter_run_bench (curr_size * 2 ^ k) T n_runs operation,
                             Enter_run_bench (curr_size * 2 ^ k) N n_runs operation]) [0..<n]) \<and>
          (\<forall>k<n. unat curr_size * 2 ^ k \<le> unat max_size) \<and>
          unat max_size < unat curr_size * 2 ^ n"
    proof (cases "curr_size \<le> max_size")
      case False
      with 1(2) r have "st' = st"
        by simp
      moreover from False have "unat max_size < unat curr_size"
        by (simp add: word_le_nat_alt)
      ultimately show ?thesis
        by (intro exI[of _ 0]) simp
    next
      case True
      then have le: "unat curr_size \<le> unat max_size"
        by (simp add: word_le_nat_alt)
      with small have dbl: "unat (curr_size * 2) = 2 * unat curr_size"
        by (intro unat_double) simp
      from pos have "0 < unat curr_size"
        by (simp add: word_greater_zero_iff unat_gt_0)
      with dbl have pos2: "0 < curr_size * 2"
        by (simp add: word_greater_zero_iff unat_gt_0 flip: unat_gt_0)
      from 1(2) True r obtain st1 st2 where
        rb1: "run_bench_v1 env curr_size T n_runs operation st = Some (Inr st1)"
        and rb2: "run_bench_v1 env curr_size N n_runs operation st1 = Some (Inr st2)"
        and rest: "sweep' env T N n_runs operation max_size (curr_size * 2) st2 = Some r"
        by (auto split: option.splits sum.splits)
      from run_bench_v1_trace[OF rb1] obtain tr1 where
        tr1: "trace st1 = trace st @ Enter_run_bench curr_size T n_runs operation # tr1"
          "invocations tr1 = []"
        by auto
      from run_bench_v1_trace[OF rb2] obtain tr2 where
        tr2: "trace st2 = trace st1 @ Enter_run_bench curr_size N n_runs operation # tr2"
          "invocations tr2 = []"
        by auto
      from 1(1)[OF rest] small pos2 r obtain n where
        n: "invocations (trace st') =
              invocations (trace st2) @
              concat (map (\<lambda>k. [Enter_run_bench (curr_size * 2 * 2 ^ k) T n_runs operation,
                               Enter_run_bench (curr_size * 2 * 2 ^ k) N n_runs operation])
                        [0..<n])"
          "\<forall>k<n. unat (curr_size * 2) * 2 ^ k \<le> unat max_size"
          "unat max_size < unat (curr_size * 2) * 2 ^ n"
        by blast
      have shift: "map (\<lambda>k. [Enter_run_bench (curr_size * 2 ^ k) T n_runs operation,
                             Enter_run_bench (curr_size * 2 ^ k) N n_runs operation]) [0..<Suc n] =
          [Enter_run_bench curr_size T n_runs operation,
           Enter_run_bench curr_size N n_runs operation] #
          map (\<lambda>k. [Enter_run_bench (curr_size * 2 * 2 ^ k) T n_runs operation,
                    Enter_run_bench (curr_size * 2 * 2 ^ k) N n_runs operation]) [0..<n]"
        by (simp only: map_upt_Suc_shift) (simp add: mult.assoc)
      have a: "invocations (trace st') =
            invocations (trace st) @
            concat (map (\<lambda>k. [Enter_run_bench (curr_size * 2 ^ k) T n_runs operation,
                             Enter_run_bench (curr_size * 2 ^ k) N n_runs operation])
                      [0..<Suc n])"
        unfolding shift using n(1) tr1 tr2 by simp
      have b: "\<forall>k<Suc n. unat curr_size * 2 ^ k \<le> unat max_size"
      proof (intro allI impI)
        fix k
        assume "k < Suc n"
        show "unat curr_size * 2 ^ k \<le> unat max_size"
        proof (cases k)
          case 0
          with le show ?thesis by simp
        next
          case (Suc k')
          with \<open>k < Suc n\<close> have "k' < n" by simp
          with n(2) have "unat (curr_size * 2) * 2 ^ k' \<le> unat max_size" by simp
          with dbl Suc show ?thesis by (simp add: ac_simps)
        qed
      qed
      have c: "unat max_size < unat curr_size * 2 ^ Suc n"
        using n(3) dbl by (simp add: ac_simps)
      from a b c show ?thesis
        by blast
    qed
  qed
qed

lemma sweep_v1_read_ok:
  assumes runs: "unat n_runs \<le> INT_MAX" and small: "unat max_size < 2 ^ 31"
  shows "0 < curr_size \<Longrightarrow>
         \<exists>st'. sweep_v1 env T N n_runs False max_size curr_size st = Some (Inr st')"
proof (induction "Suc (unat max_size) - unat curr_size" arbitrary: curr_size st rule: less_induct)
  case less
  show ?case
  proof (cases "curr_size \<le> max_size")
    case False
    then show ?thesis
      by (simp add: sweep_v1_past_max)
  next
    case True
    then have le: "unat curr_size \<le> unat max_size"
      by (simp add: word_le_nat_alt)
    with small have dbl: "unat (curr_size * 2) = 2 * unat curr_size"
      by (intro unat_double) simp
    from less.prems have p: "0 < unat curr_size"
      by (simp add: word_greater_zero_iff unat_gt_0)
    with dbl have pos2: "0 < curr_size * 2"
      by (simp add: word_greater_zero_iff unat_gt_0 flip: unat_gt_0)
    obtain st1 where r1: "run_bench_v1 env curr_size T n_runs False st = Some (Inr st1)"
      using run_bench_v1_read_ok[OF runs] by blast
    obtain st2 where r2: "run_bench_v1 env curr_size N n_runs False st1 = Some (Inr st2)"
      using run_bench_v1_read_ok[OF runs] by blast
    have "Suc (unat max_size) - unat (curr_size * 2) < Suc (unat max_size) - unat curr_size"
      using dbl p le by simp
    from less.hyps[OF this pos2, of st2] obtain st' where
      "sweep_v1 env T N n_runs False max_size (curr_size * 2) st2 = Some (Inr st')"
      by blast
    with r1 r2 True show ?thesis
      by (subst sweep_v1.simps) simp
  qed
qed

lemma allocate_buffers_v1_trace:
  "\<exists>tr. trace_of (allocate_buffers_v1 env gpu max_size st) = trace st @ tr \<and>
        (\<forall>e\<in>set tr. \<not> is_enter e \<and> e \<noteq> ClearCompleted)"
proof -
  let ?st1 = "log (InitRDMA max_size (initRDMA_ok env)) st"
  obtain r1 st2 where c1: "call_hip env (hipSetDevice gpu) ?st1 = (r1, st2)"
    by force
  obtain v1 st3 where g1: "get_mem env max_size gpu st2 = (v1, st3)"
    by force
  obtain v2 st4 where g2: "get_mem env max_size gpu st3 = (v2, st4)"
    by force
  obtain v3 st5 where g3: "get_mem env max_size gpu st4 = (v3, st5)"
    by force
  obtain v4 st6 where g4: "get_mem env max_size gpu st5 = (v4, st6)"
    by force
  note facts = call_hip_trace[OF c1] get_mem_trace[OF g1]
    get_mem_trace[OF g2] get_mem_trace[OF g3] get_mem_trace[OF g4]
  show ?thesis
    unfolding allocate_buffers_v1_def Let_def c1 g1 g2 g3 g4 prod.case
    using facts by (simp split: if_splits)
qed

lemma allocate_buffers_v1_ok:
  assumes "initRDMA_ok env" "\<And>h g. getMem_ok env h g"
    "\<And>h d. hip_returns env h (hipSetDevice d) = hipSuccess"
  shows "\<exists>st'. allocate_buffers_v1 env gpu max_size st = Inr st'"
proof -
  let ?st1 = "log (InitRDMA max_size (initRDMA_ok env)) st"
  obtain r1 st2 where c1: "call_hip env (hipSetDevice gpu) ?st1 = (r1, st2)"
    by force
  obtain v1 st3 where g1: "get_mem env max_size gpu st2 = (v1, st3)"
    by force
  obtain v2 st4 where g2: "get_mem env max_size gpu st3 = (v2, st4)"
    by force
  obtain v3 st5 where g3: "get_mem env max_size gpu st4 = (v3, st5)"
    by force
  obtain v4 st6 where g4: "get_mem env max_size gpu st5 = (v4, st6)"
    by force
  have "r1 = hipSuccess" "v1" "v2" "v3" "v4"
    using call_hip_returns[OF c1] get_mem_trace[OF g1]
      get_mem_trace[OF g2] get_mem_trace[OF g3] get_mem_trace[OF g4] assms
    by simp_all
  then show ?thesis
    unfolding allocate_buffers_v1_def Let_def c1 g1 g2 g3 g4 prod.case
    using assms(1) by simp
qed

lemma main_v1_invocations:
  assumes run: "main_v1 env gpu T N operation n_runs min_size max_size st = Some (Inr (c, st'))"
    and small: "unat max_size < 2 ^ 31" and pos: "0 < min_size"
  shows "\<exists>n. invocations (trace st') =
            invocations (trace st) @
            concat (map (\<lambda>k. [Enter_run_bench (min_size * 2 ^ k) T n_runs operation,
                             Enter_run_bench (min_size * 2 ^ k) N n_runs operation]) [0..<n]) \<and>
          (\<forall>k<n. unat min_size * 2 ^ k \<le> unat max_size) \<and>
          unat max_size < unat min_size * 2 ^ n"
proof -
  obtain tr1 where tr1: "trace_of (allocate_buffers_v1 env gpu max_size st) = trace st @ tr1"
    "\<forall>e\<in>set tr1. \<not> is_enter e \<and> e \<noteq> ClearCompleted"
    using allocate_buffers_v1_trace[of env gpu max_size st] by blast
  note p1 = plain_list[OF tr1(2)]
  from run obtain st1 st2 where
    a: "allocate_buffers_v1 env gpu max_size st = Inr st1"
    and s: "sweep_v1 env T N n_runs operation max_size min_size st1 = Some (Inr st2)"
    and e: "st' = log (ConnSync IS_CLIENT) st2"
    by (auto simp: main_v1_def split: sum.splits option.splits)
  from sweep_v1_invocations_aux[OF s] small pos obtain n where
    n: "invocations (trace st2) =
            invocations (trace st1) @
            concat (map (\<lambda>k. [Enter_run_bench (min_size * 2 ^ k) T n_runs operation,
                             Enter_run_bench (min_size * 2 ^ k) N n_runs operation]) [0..<n])"
      "\<forall>k<n. unat min_size * 2 ^ k \<le> unat max_size"
      "unat max_size < unat min_size * 2 ^ n"
    by blast
  from a tr1(1) have "trace st1 = trace st @ tr1"
    by simp
  with n e p1 show ?thesis
    by (intro exI[of _ n]) simp
qed

lemma main_v1_read_ok:
  assumes ok: "\<And>h c. hip_returns env h c = hipSuccess"
    and alloc: "initRDMA_ok env" "\<And>h g. getMem_ok env h g"
    and runs: "unat n_runs \<le> INT_MAX"
    and range: "0 < min_size" "unat max_size < 2 ^ 31"
  shows "\<exists>st'. main_v1 env gpu T N False n_runs min_size max_size st =
                 Some (Inr (EXIT_SUCCESS, st'))"
proof -
  obtain st1 where s1: "allocate_buffers_v1 env gpu max_size st = Inr st1"
    using allocate_buffers_v1_ok[OF alloc ok] by blast
  obtain st2 where s2: "sweep_v1 env T N n_runs False max_size min_size st1 = Some (Inr st2)"
    using sweep_v1_read_ok[OF runs range(2) range(1)] by blast
  from s1 s2 show ?thesis
    by (simp add: main_v1_def)
qed

lemma unat_times_pow:
  fixes a :: u32
  assumes "unat a * 2 ^ k < 2 ^ 32" and "0 < a"
  shows "unat (a * 2 ^ k) = unat a * 2 ^ k"
proof -
  from assms(2) have "1 \<le> unat a"
    by (simp add: word_greater_zero_iff unat_gt_0 Suc_leI)
  then have "(2 :: nat) ^ k \<le> unat a * 2 ^ k"
    by simp
  from this assms(1) have lt: "(2 :: nat) ^ k < 2 ^ 32"
    by (rule le_less_trans)
  have "k < 32"
    by (rule power_less_imp_less_exp[OF _ lt]) simp
  have "(2 :: u32) ^ k = of_nat (2 ^ k)"
    by simp
  then have "unat ((2 :: u32) ^ k) = take_bit 32 ((2 :: nat) ^ k)"
    by (simp only: unsigned_of_nat) simp
  with \<open>k < 32\<close> have p: "unat ((2 :: u32) ^ k) = 2 ^ k"
    by (simp add: take_bit_nat_eq_self)
  with assms(1) have "unat a * unat ((2 :: u32) ^ k) < 2 ^ LENGTH(32)"
    by simp
  then have "unat (a * 2 ^ k) = unat a * unat ((2 :: u32) ^ k)"
    by (simp only: unat_mult_lem)
  with p show ?thesis
    by simp
qed

section \<open>The sizes the sweep visits\<close>

lemma sweep_step_read:
  assumes ok: "\<And>h c. hip_returns env h c = hipSuccess"
    and runs: "unat (n_runs + 10) \<le> INT_MAX"
    and le: "curr_size \<le> max_size"
  shows "\<exists>s1 tr. sweep env N n_runs False max_size curr_size s =
                  sweep env N n_runs False max_size (curr_size * 2) s1 \<and>
               trace s1 = trace s @ Enter_run_bench curr_size N (n_runs + 10) False # tr \<and>
               invocations tr = []"
proof -
  obtain s1 where r1: "run_bench env curr_size N (n_runs + 10) False s = Some (Inr s1)"
    using run_bench_read_ok[OF ok runs] by blast
  from run_bench_trace[OF r1] obtain tr where
    "trace s1 = trace s @ Enter_run_bench curr_size N (n_runs + 10) False # tr"
    "invocations tr = []"
    by auto
  moreover have "sweep env N n_runs False max_size curr_size s =
                  sweep env N n_runs False max_size (curr_size * 2) s1"
    using le r1 by (subst sweep.simps) simp
  ultimately show ?thesis
    by blast
qed

text \<open>
  Claim C3, as amended. For \<open>0 < min_size\<close> and \<open>max_size < 2 ^ 31\<close>, a run of \<^verbatim>\<open>main\<close>
  that returns has invoked \<^verbatim>\<open>run_bench\<close> on exactly the sizes \<open>min_size * 2 ^ k\<close> that
  are at most \<open>max_size\<close>, in increasing order, with no wrap-around. The scatter server
  (second listing) invokes it once per size, with \<^verbatim>\<open>N_LATENCY_REPS\<close> transfers and
  \<open>n_runs + 10\<close> repetitions; the first listing invokes it twice per size, with
  \<^verbatim>\<open>N_THROUGHPUT_REPS\<close> and then \<^verbatim>\<open>N_LATENCY_REPS\<close> transfers, and \<open>n_runs\<close>
  repetitions each.
\<close>

theorem sweep_visits_doubling_sizes:
  assumes "0 < min_size" and "unat max_size < 2 ^ 31"
  shows "(main env N operation n_runs min_size max_size st = Some (Inr (c, st')) \<longrightarrow>
          (\<exists>n. invocations (trace st') =
                  invocations (trace st) @
                  map (\<lambda>k. Enter_run_bench (min_size * 2 ^ k) N (n_runs + 10) operation) [0..<n] \<and>
               (\<forall>k<n. unat (min_size * 2 ^ k) = unat min_size * 2 ^ k \<and>
                      unat min_size * 2 ^ k \<le> unat max_size) \<and>
               unat max_size < unat min_size * 2 ^ n)) \<and>
         (main_v1 env gpu T N operation n_runs min_size max_size st = Some (Inr (c, st')) \<longrightarrow>
          (\<exists>n. invocations (trace st') =
                  invocations (trace st) @
                  concat (map (\<lambda>k. [Enter_run_bench (min_size * 2 ^ k) T n_runs operation,
                                   Enter_run_bench (min_size * 2 ^ k) N n_runs operation])
                            [0..<n]) \<and>
               (\<forall>k<n. unat (min_size * 2 ^ k) = unat min_size * 2 ^ k \<and>
                      unat min_size * 2 ^ k \<le> unat max_size) \<and>
               unat max_size < unat min_size * 2 ^ n))"
proof -
  have no_wrap: "\<forall>k<n. unat (min_size * 2 ^ k) = unat min_size * 2 ^ k \<and>
                      unat min_size * 2 ^ k \<le> unat max_size"
    if "\<forall>k<n. unat min_size * 2 ^ k \<le> unat max_size" for n
  proof (intro allI impI)
    fix k
    assume "k < n"
    with that have le: "unat min_size * 2 ^ k \<le> unat max_size"
      by simp
    with assms(2) have "unat min_size * 2 ^ k < 2 ^ 32"
      by simp
    from unat_times_pow[OF this assms(1)] le
    show "unat (min_size * 2 ^ k) = unat min_size * 2 ^ k \<and>
          unat min_size * 2 ^ k \<le> unat max_size"
      by simp
  qed
  show ?thesis
  proof (intro conjI impI)
    assume "main env N operation n_runs min_size max_size st = Some (Inr (c, st'))"
    from main_invocations[OF this assms(2,1)] obtain n where
      "invocations (trace st') =
         invocations (trace st) @
         map (\<lambda>k. Enter_run_bench (min_size * 2 ^ k) N (n_runs + 10) operation) [0..<n]"
      "\<forall>k<n. unat min_size * 2 ^ k \<le> unat max_size"
      "unat max_size < unat min_size * 2 ^ n"
      by blast
    with no_wrap[of n] show "\<exists>n. invocations (trace st') =
                  invocations (trace st) @
                  map (\<lambda>k. Enter_run_bench (min_size * 2 ^ k) N (n_runs + 10) operation) [0..<n] \<and>
               (\<forall>k<n. unat (min_size * 2 ^ k) = unat min_size * 2 ^ k \<and>
                      unat min_size * 2 ^ k \<le> unat max_size) \<and>
               unat max_size < unat min_size * 2 ^ n"
      by (intro exI[of _ n]) simp
  next
    assume "main_v1 env gpu T N operation n_runs min_size max_size st = Some (Inr (c, st'))"
    from main_v1_invocations[OF this assms(2,1)] obtain n where
      "invocations (trace st') =
         invocations (trace st) @
         concat (map (\<lambda>k. [Enter_run_bench (min_size * 2 ^ k) T n_runs operation,
                          Enter_run_bench (min_size * 2 ^ k) N n_runs operation]) [0..<n])"
      "\<forall>k<n. unat min_size * 2 ^ k \<le> unat max_size"
      "unat max_size < unat min_size * 2 ^ n"
      by blast
    with no_wrap[of n] show "\<exists>n. invocations (trace st') =
                  invocations (trace st) @
                  concat (map (\<lambda>k. [Enter_run_bench (min_size * 2 ^ k) T n_runs operation,
                                   Enter_run_bench (min_size * 2 ^ k) N n_runs operation])
                            [0..<n]) \<and>
               (\<forall>k<n. unat (min_size * 2 ^ k) = unat min_size * 2 ^ k \<and>
                      unat min_size * 2 ^ k \<le> unat max_size) \<and>
               unat max_size < unat min_size * 2 ^ n"
      by (intro exI[of _ n]) simp
  qed
qed

text \<open>
  The spec's scenario, \<open>min_size = 64\<close> and \<open>max_size = 256\<close>, in read mode with
  \<^verbatim>\<open>--runs 0\<close>: the sizes are 64, 128, 256 in both listings, once each in the scatter
  server and twice each in the first listing (here with 32 and 1 transfers).
\<close>

theorem sweep_visits_doubling_sizes_witness:
  "\<exists>st2 st1.
     main env_ok 1 False 0 64 256 st_init = Some (Inr (EXIT_SUCCESS, st2)) \<and>
     invocations (trace st2) =
       [Enter_run_bench 64 1 10 False, Enter_run_bench 128 1 10 False,
        Enter_run_bench 256 1 10 False] \<and>
     main_v1 env_ok 0 32 1 False 0 64 256 st_init = Some (Inr (EXIT_SUCCESS, st1)) \<and>
     invocations (trace st1) =
       [Enter_run_bench 64 32 0 False, Enter_run_bench 64 1 0 False,
        Enter_run_bench 128 32 0 False, Enter_run_bench 128 1 0 False,
        Enter_run_bench 256 32 0 False, Enter_run_bench 256 1 0 False]"
proof -
  have pos: "0 < (64 :: u32)" and small: "unat (256 :: u32) < 2 ^ 31"
    by simp_all
  have runs: "unat ((0 :: u32) + 10) \<le> INT_MAX" "unat (0 :: u32) \<le> INT_MAX"
    by (simp_all add: INT_MAX_def)
  have three: "\<forall>k<3. unat (64 :: u32) * 2 ^ k \<le> unat (256 :: u32)"
    "unat (256 :: u32) < unat (64 :: u32) * 2 ^ 3"
    by (simp_all add: less_Suc_eq numeral_3_eq_3)
  have upt3: "[0..<3] = [0, 1, 2]"
    by (simp add: upt_conv_Cons)
  obtain st2 where
    run2: "main env_ok 1 False 0 64 256 st_init = Some (Inr (EXIT_SUCCESS, st2))"
    using main_read_ok[of env_ok 0 256 64 1 st_init, OF _ _ _ runs(1)] pos small by auto
  obtain st1 where
    run1: "main_v1 env_ok 0 32 1 False 0 64 256 st_init = Some (Inr (EXIT_SUCCESS, st1))"
    using main_v1_read_ok[of env_ok 0 64 256 0 32 1 st_init, OF _ _ _ runs(2) pos small]
    by auto
  note inst2 = sweep_visits_doubling_sizes[OF pos small, THEN conjunct1, rule_format, OF run2]
  note inst1 = sweep_visits_doubling_sizes[OF pos small, THEN conjunct2, rule_format, OF run1]
  from inst2 obtain n where
    n: "invocations (trace st2) =
          invocations (trace st_init) @
          map (\<lambda>k. Enter_run_bench (64 * 2 ^ k) 1 (0 + 10) False) [0..<n]"
      "\<forall>k<n. unat (64 :: u32) * 2 ^ k \<le> unat (256 :: u32)"
      "unat (256 :: u32) < unat (64 :: u32) * 2 ^ n"
    by blast
  have "n = 3"
    by (rule doubling_count_unique[OF n(2,3) three])
  with n(1) have a: "invocations (trace st2) =
       [Enter_run_bench 64 1 10 False, Enter_run_bench 128 1 10 False,
        Enter_run_bench 256 1 10 False]"
    by (simp add: upt3 st_init_def)
  from inst1 obtain m where
    m: "invocations (trace st1) =
          invocations (trace st_init) @
          concat (map (\<lambda>k. [Enter_run_bench (64 * 2 ^ k) 32 0 False,
                           Enter_run_bench (64 * 2 ^ k) 1 0 False]) [0..<m])"
      "\<forall>k<m. unat (64 :: u32) * 2 ^ k \<le> unat (256 :: u32)"
      "unat (256 :: u32) < unat (64 :: u32) * 2 ^ m"
    by blast
  have "m = 3"
    by (rule doubling_count_unique[OF m(2,3) three])
  with m(1) have b: "invocations (trace st1) =
       [Enter_run_bench 64 32 0 False, Enter_run_bench 64 1 0 False,
        Enter_run_bench 128 32 0 False, Enter_run_bench 128 1 0 False,
        Enter_run_bench 256 32 0 False, Enter_run_bench 256 1 0 False]"
    by (simp add: upt3 st_init_def)
  from run2 a run1 b show ?thesis
    by blast
qed

text \<open>
  Claim C3 as stated fails on the scatter server. From 64 to 256 it invokes
  \<^verbatim>\<open>run_bench\<close> three times, once per size and never with a throughput count. And for
  the valid pair \<open>min_size = max_size = 2952790016\<close> the doubling wraps around: after
  2952790016 the sweep visits 1610612736, which is smaller and is no \<open>min_size * 2 ^ k\<close>.
\<close>

theorem sweep_visits_doubling_sizes_counterexample:
  "map_option (invocations \<circ> trace_of_main) (main env_ok 1 False 0 64 256 st_init) =
     Some [Enter_run_bench 64 1 10 False, Enter_run_bench 128 1 10 False,
           Enter_run_bench 256 1 10 False] \<and>
   map_option (invocations \<circ> trace_of_main)
       (main env_ok 1 False 0 2952790016 2952790016 st_init) =
     Some [Enter_run_bench 2952790016 1 10 False, Enter_run_bench 1610612736 1 10 False]"
proof -
  have runs: "unat ((0 :: u32) + 10) \<le> INT_MAX"
    by (simp add: INT_MAX_def)
  have run: "map_option (invocations \<circ> trace_of_main)
        (main env_ok 1 False 0 a b st_init) =
      Some [Enter_run_bench x 1 10 False, Enter_run_bench y 1 10 False]"
    if "a = x" "x \<le> b" "x * 2 = y" "y \<le> b" "b < y * 2" for a b x y :: u32
  proof -
    obtain s0 where s0: "allocate_buffers env_ok b st_init = Inr s0"
      using allocate_buffers_ok[of env_ok b st_init] by auto
    obtain tr0 where tr0: "trace_of (allocate_buffers env_ok b st_init) = trace st_init @ tr0"
      "\<forall>e\<in>set tr0. \<not> is_enter e \<and> e \<noteq> ClearCompleted"
      using allocate_buffers_trace[of env_ok b st_init] by blast
    have i0: "invocations (trace s0) = []"
      using s0 tr0(1) plain_list(1)[OF tr0(2)] by (simp add: st_init_def)
    from sweep_step_read[of env_ok 0 x b 1 s0, OF _ runs that(2)] obtain s1 tr1 where
      s1: "sweep env_ok 1 0 False b x s0 = sweep env_ok 1 0 False b (x * 2) s1"
        "trace s1 = trace s0 @ Enter_run_bench x 1 (0 + 10) False # tr1" "invocations tr1 = []"
      by auto
    from sweep_step_read[of env_ok 0 y b 1 s1, OF _ runs that(4)] obtain s2 tr2 where
      s2: "sweep env_ok 1 0 False b y s1 = sweep env_ok 1 0 False b (y * 2) s2"
        "trace s2 = trace s1 @ Enter_run_bench y 1 (0 + 10) False # tr2" "invocations tr2 = []"
      by auto
    have "sweep env_ok 1 0 False b a s0 = Some (Inr s2)"
      using s1(1) s2(1) that(1,3) sweep_past_max[OF that(5)] by simp
    then have m: "main env_ok 1 False 0 a b st_init = Some (final_sync_and_exit env_ok s2)"
      using s0 by (simp add: main_def)
    obtain tr3 where tr3: "trace_of_main (final_sync_and_exit env_ok s2) = trace s2 @ tr3"
      "\<forall>e\<in>set tr3. \<not> is_enter e \<and> e \<noteq> ClearCompleted"
      using final_sync_and_exit_trace[of env_ok s2] by blast
    have "invocations (trace_of_main (final_sync_and_exit env_ok s2)) =
        [Enter_run_bench x 1 10 False, Enter_run_bench y 1 10 False]"
      using tr3(1) plain_list(1)[OF tr3(2)] s2(2,3) s1(2,3) i0 by simp
    with m show ?thesis
      by simp
  qed
  have wrap: "map_option (invocations \<circ> trace_of_main)
       (main env_ok 1 False 0 2952790016 2952790016 st_init) =
     Some [Enter_run_bench 2952790016 1 10 False, Enter_run_bench 1610612736 1 10 False]"
    by (rule run) simp_all
  have pos: "0 < (64 :: u32)" and small: "unat (256 :: u32) < 2 ^ 31"
    by simp_all
  have three: "\<forall>k<3. unat (64 :: u32) * 2 ^ k \<le> unat (256 :: u32)"
    "unat (256 :: u32) < unat (64 :: u32) * 2 ^ 3"
    by (simp_all add: less_Suc_eq numeral_3_eq_3)
  have upt3: "[0..<3] = [0, 1, 2]"
    by (simp add: upt_conv_Cons)
  obtain st2 where
    run2: "main env_ok 1 False 0 64 256 st_init = Some (Inr (EXIT_SUCCESS, st2))"
    using main_read_ok[of env_ok 0 256 64 1 st_init, OF _ _ _ runs] pos small by auto
  from main_invocations[OF run2 small pos] obtain n where
    n: "invocations (trace st2) =
          invocations (trace st_init) @
          map (\<lambda>k. Enter_run_bench (64 * 2 ^ k) 1 (0 + 10) False) [0..<n]"
      "\<forall>k<n. unat (64 :: u32) * 2 ^ k \<le> unat (256 :: u32)"
      "unat (256 :: u32) < unat (64 :: u32) * 2 ^ n"
    by blast
  have "n = 3"
    by (rule doubling_count_unique[OF n(2,3) three])
  with n(1) have "invocations (trace st2) =
       [Enter_run_bench 64 1 10 False, Enter_run_bench 128 1 10 False,
        Enter_run_bench 256 1 10 False]"
    by (simp add: upt3 st_init_def)
  with run2 wrap show ?thesis
    by simp
qed

end
